theory Spec2Isabelle
  imports Main "HOL-Library.Word" "HOL-Library.Sublist"
begin

unbundle bit_operations_syntax

section \<open>Bit-packed k-mers: the data model\<close>

text \<open>
  The package packs a k-mer (k at most 32) into a \<open>uint64\<close>, two bits a base, the
  leftmost base in the highest used bits. Go's \<open>uint64\<close> is \<open>64 word\<close>; \<open>shl\<close> and
  \<open>shr\<close> are Go's \<open>x << n\<close> and \<open>x >> n\<close> for an unsigned 64-bit count \<open>n\<close>, zero
  once \<open>n\<close> reaches 64. Go's \<open>byte\<close> is \<open>char\<close> (256 values), a \<open>[]byte\<close> is a
  \<open>string\<close>. Go's \<open>int\<close> is taken at its 64-bit width: a computed \<open>int\<close> is read back
  through \<open>int64\<close>.

  The exported error values are the constructors of \<open>error\<close>; \<open>RuntimeError\<close> stands
  for the panics of the Go runtime itself (index out of range, negative shift count,
  negative slice length). A function that panics returns \<open>Inl\<close> of the panic value; a
  function with the Go result \<open>(uint64, error)\<close> returns the pair of the code and the
  optional error.
\<close>

type_synonym uint64 = "64 word"

datatype error =
    ErrIllegalBase
  | ErrKOverflow
  | ErrPositionOverflow
  | ErrLengthOverflow
  | ErrCodeOverflow
  | ErrKMismatch
  | ErrNotConsecutiveKmers
  | RuntimeError

definition shl :: "uint64 \<Rightarrow> uint64 \<Rightarrow> uint64" where
  "shl x n = (if n < 64 then push_bit (unat n) x else 0)"

definition shr :: "uint64 \<Rightarrow> uint64 \<Rightarrow> uint64" where
  "shr x n = (if n < 64 then drop_bit (unat n) x else 0)"

definition int64 :: "int \<Rightarrow> int" where
  "int64 x = sint (word_of_int x :: 64 word)"

text \<open>\<open>x >> s\<close> with a signed count: the Go runtime panics when \<open>s\<close> is negative.\<close>

definition shr_int :: "uint64 \<Rightarrow> int \<Rightarrow> error + uint64" where
  "shr_int x s = (if s < 0 then Inl RuntimeError else Inr (shr x (word_of_int s)))"

subsection \<open>The lookup tables\<close>

definition base2bit_tab :: "uint64 list" where
  "base2bit_tab =
   [4, 4, 4, 4, 4, 4, 4, 4, 4, 4, 4, 4, 4, 4, 4, 4,
    4, 4, 4, 4, 4, 4, 4, 4, 4, 4, 4, 4, 4, 4, 4, 4,
    4, 4, 4, 4, 4, 4, 4, 4, 4, 4, 4, 4, 4, 4, 4, 4,
    4, 4, 4, 4, 4, 4, 4, 4, 4, 4, 4, 4, 4, 4, 4, 4,
    4, 0, 1, 1, 0, 4, 4, 2, 0, 4, 4, 2, 4, 0, 0, 4,
    4, 4, 0, 1, 3, 3, 0, 0, 4, 1, 4, 4, 4, 4, 4, 4,
    4, 0, 1, 1, 0, 4, 4, 2, 0, 4, 4, 2, 4, 0, 0, 4,
    4, 4, 0, 1, 3, 3, 0, 0, 4, 1, 4, 4, 4, 4, 4, 4,
    4, 4, 4, 4, 4, 4, 4, 4, 4, 4, 4, 4, 4, 4, 4, 4,
    4, 4, 4, 4, 4, 4, 4, 4, 4, 4, 4, 4, 4, 4, 4, 4,
    4, 4, 4, 4, 4, 4, 4, 4, 4, 4, 4, 4, 4, 4, 4, 4,
    4, 4, 4, 4, 4, 4, 4, 4, 4, 4, 4, 4, 4, 4, 4, 4,
    4, 4, 4, 4, 4, 4, 4, 4, 4, 4, 4, 4, 4, 4, 4, 4,
    4, 4, 4, 4, 4, 4, 4, 4, 4, 4, 4, 4, 4, 4, 4, 4,
    4, 4, 4, 4, 4, 4, 4, 4, 4, 4, 4, 4, 4, 4, 4, 4,
    4, 4, 4, 4, 4, 4, 4, 4, 4, 4, 4, 4, 4, 4, 4, 4]"

definition base2bit :: "char \<Rightarrow> uint64" where
  "base2bit b = base2bit_tab ! of_char b"

definition bit2base_tab :: "string" where
  "bit2base_tab = ''ACGT''"

definition bit2base :: "uint64 \<Rightarrow> char" where
  "bit2base v = bit2base_tab ! unat v"

text \<open>
  \<open>init\<close> fills \<open>MaxCode[1..32]\<close>; entry 0 keeps the zero of \<open>make\<close>. The inner shift
  \<open>uint(1<<i)\<close> is a 64-bit \<open>uint\<close>.
\<close>

definition MaxCode_entry :: "nat \<Rightarrow> uint64" where
  "MaxCode_entry i = shl 1 (shl 1 (of_nat i)) - 1"

definition MaxCode :: "uint64 list" where
  "MaxCode = fold (\<lambda>i tab. tab[i := MaxCode_entry i]) [1..<33] (replicate 33 0)"

subsection \<open>Encode and the incremental encoders\<close>

fun encode_loop :: "string \<Rightarrow> uint64 \<Rightarrow> uint64 \<times> error option" where
  "encode_loop [] code = (code, None)"
| "encode_loop (b # bs) code =
     (let code1 = shl code 2; v = base2bit b
      in if v = 4 then (code1, Some ErrIllegalBase)
         else encode_loop bs (code1 OR v))"

definition Encode :: "string \<Rightarrow> uint64 \<times> error option" where
  "Encode kmer =
     (if length kmer = 0 \<or> length kmer > 32 then (0, Some ErrKOverflow)
      else encode_loop kmer 0)"

definition MustEncodeFromFormerKmer ::
  "string \<Rightarrow> string \<Rightarrow> uint64 \<Rightarrow> error + (uint64 \<times> error option)" where
  "MustEncodeFromFormerKmer kmer leftKmer leftCode =
     (if kmer = [] then Inl RuntimeError
      else let v = base2bit (kmer ! (length kmer - 1))
           in if v = 4 then Inr (leftCode, Some ErrIllegalBase)
              else Inr (shl (leftCode AND (shl 1 (shl (of_nat (length kmer - 1)) 1) - 1)) 2 OR v,
                        None))"

definition EncodeFromFormerKmer ::
  "string \<Rightarrow> string \<Rightarrow> uint64 \<Rightarrow> error + (uint64 \<times> error option)" where
  "EncodeFromFormerKmer kmer leftKmer leftCode =
     (if length kmer = 0 then Inr (0, Some ErrKOverflow)
      else if length kmer \<noteq> length leftKmer then Inr (0, Some ErrKMismatch)
      else if take (length kmer - 1) kmer \<noteq> drop 1 leftKmer
        then Inr (0, Some ErrNotConsecutiveKmers)
      else MustEncodeFromFormerKmer kmer leftKmer leftCode)"

definition MustEncodeFromLatterKmer ::
  "string \<Rightarrow> string \<Rightarrow> uint64 \<Rightarrow> error + (uint64 \<times> error option)" where
  "MustEncodeFromLatterKmer kmer rightKmer rightCode =
     (if kmer = [] then Inl RuntimeError
      else let v = base2bit (kmer ! 0)
           in if v = 4 then Inr (rightCode, Some ErrIllegalBase)
              else Inr (shl v (shl (of_nat (length kmer - 1)) 1) OR shr rightCode 2, None))"

definition EncodeFromLatterKmer ::
  "string \<Rightarrow> string \<Rightarrow> uint64 \<Rightarrow> error + (uint64 \<times> error option)" where
  "EncodeFromLatterKmer kmer rightKmer rightCode =
     (if length kmer = 0 then Inr (0, Some ErrKOverflow)
      else if length kmer \<noteq> length rightKmer then Inr (0, Some ErrKMismatch)
      else if take (length kmer - 1) rightKmer \<noteq> drop 1 (take (length rightKmer) kmer)
        then Inr (0, Some ErrNotConsecutiveKmers)
      else MustEncodeFromLatterKmer kmer rightKmer rightCode)"

text \<open>
  The table in the documentation of \<open>Encode\<close>: each degenerate base with the bases it
  stands for, in the order listed there ("only the first base is kept").
\<close>

definition degenerate_bases :: "(char \<times> string) list" where
  "degenerate_bases =
     [(CHR ''M'', ''AC''), (CHR ''V'', ''ACG''), (CHR ''H'', ''ACT''), (CHR ''R'', ''AG''),
      (CHR ''D'', ''AGT''), (CHR ''W'', ''AT''), (CHR ''S'', ''CG''), (CHR ''B'', ''CGT''),
      (CHR ''Y'', ''CT''), (CHR ''K'', ''GT''), (CHR ''N'', ''ACGT'')]"

subsection \<open>Reverse, complement, reverse complement, canonical\<close>

text \<open>
  The five masked shift-and-or lines that \<open>Reverse\<close>, \<open>MustReverse\<close>, \<open>RevComp\<close>,
  \<open>MustRevComp\<close>, \<open>Canonical\<close> and \<open>MustCanonical\<close> each spell out.
\<close>

definition swap_cascade :: "uint64 \<Rightarrow> uint64" where
  "swap_cascade c0 =
     (let c1 = (shr c0 2 AND 0x3333333333333333) OR shl (c0 AND 0x3333333333333333) 2;
          c2 = (shr c1 4 AND 0x0F0F0F0F0F0F0F0F) OR shl (c1 AND 0x0F0F0F0F0F0F0F0F) 4;
          c3 = (shr c2 8 AND 0x00FF00FF00FF00FF) OR shl (c2 AND 0x00FF00FF00FF00FF) 8;
          c4 = (shr c3 16 AND 0x0000FFFF0000FFFF) OR shl (c3 AND 0x0000FFFF0000FFFF) 16;
          c5 = (shr c4 32 AND 0x00000000FFFFFFFF) OR shl (c4 AND 0x00000000FFFFFFFF) 32
      in c5)"

definition MustReverse :: "uint64 \<Rightarrow> int \<Rightarrow> error + uint64" where
  "MustReverse code k = shr_int (swap_cascade code) (int64 (push_bit 1 (int64 (32 - k))))"

definition Reverse :: "uint64 \<Rightarrow> int \<Rightarrow> error + uint64" where
  "Reverse code k =
     (if k \<le> 0 \<or> k > 32 then Inl ErrKOverflow
      else Inr (shr (swap_cascade code) (word_of_int (push_bit 1 (32 - k)))))"

text \<open>
  A signed shift count that the guard on \<open>k\<close> has made non-negative is passed as the
  unsigned count of the same value. \<open>uint(k<<1)\<close> converts the \<open>int\<close> to a 64-bit
  unsigned count, whatever its sign.
\<close>

definition MustComplement :: "uint64 \<Rightarrow> int \<Rightarrow> uint64" where
  "MustComplement code k =
     code XOR (shl 1 (word_of_int (push_bit 1 k)) - 1)"

definition Complement :: "uint64 \<Rightarrow> int \<Rightarrow> error + uint64" where
  "Complement code k =
     (if k \<le> 0 \<or> k > 32 then Inl ErrKOverflow
      else Inr (code XOR (shl 1 (word_of_int (push_bit 1 k)) - 1)))"

definition MustRevComp :: "uint64 \<Rightarrow> int \<Rightarrow> error + uint64" where
  "MustRevComp code k = shr_int (swap_cascade (NOT code)) (int64 (push_bit 1 (int64 (32 - k))))"

definition RevComp :: "uint64 \<Rightarrow> int \<Rightarrow> error + uint64" where
  "RevComp code k =
     (if k \<le> 0 \<or> k > 32 then Inl ErrKOverflow
      else Inr (shr (swap_cascade (NOT code)) (word_of_int (push_bit 1 (32 - k)))))"

definition MustCanonical :: "uint64 \<Rightarrow> int \<Rightarrow> error + uint64" where
  "MustCanonical code k =
     (case shr_int (swap_cascade (NOT code)) (int64 (push_bit 1 (int64 (32 - k)))) of
        Inl e \<Rightarrow> Inl e
      | Inr rc \<Rightarrow> if rc < code then Inr rc else Inr code)"

definition Canonical :: "uint64 \<Rightarrow> int \<Rightarrow> error + uint64" where
  "Canonical code k =
     (if k \<le> 0 \<or> k > 32 then Inl ErrKOverflow
      else let rc = shr (swap_cascade (NOT code)) (word_of_int (push_bit 1 (32 - k)))
           in if rc < code then Inr rc else Inr code)"

text \<open>
  Reversing \<open>K\<close> symbols moves the bit at position \<open>mirror K n\<close> to position \<open>n\<close>:
  the symbol index \<open>n div 2\<close> is mirrored within the \<open>K\<close> symbols, the bit within
  the symbol stays.
\<close>

definition mirror :: "nat \<Rightarrow> nat \<Rightarrow> nat" where
  "mirror K n = 2 * K - 2 + n mod 2 - 2 * (n div 2)"

subsection \<open>Decode\<close>

text \<open>
  The loop of \<open>Decode\<close> and \<open>MustDecode\<close>: iteration \<open>i\<close> writes \<open>kmer[k-1-i]\<close> and
  shifts the code right by two bits.
\<close>

function decode_loop :: "nat \<Rightarrow> nat \<Rightarrow> uint64 \<Rightarrow> string \<Rightarrow> string" where
  "decode_loop k i code kmer =
     (if i < k
      then decode_loop k (i + 1) (shr code 2) (kmer[k - 1 - i := bit2base (code AND 3)])
      else kmer)"
  by pat_completeness auto
termination
  by (relation "measure (\<lambda>(k, i, code, kmer). k - i)") auto

declare decode_loop.simps [simp del]

definition Decode :: "uint64 \<Rightarrow> int \<Rightarrow> error + string" where
  "Decode code k =
     (if k \<le> 0 \<or> k > 32 then Inl ErrKOverflow
      else if code > MaxCode ! nat k then Inl ErrCodeOverflow
      else Inr (decode_loop (nat k) 0 code (replicate (nat k) (CHR 0x00))))"

definition MustDecode :: "uint64 \<Rightarrow> int \<Rightarrow> error + string" where
  "MustDecode code k =
     (if k < 0 then Inl RuntimeError
      else Inr (decode_loop (nat k) 0 code (replicate (nat k) (CHR 0x00))))"

text \<open>
  What the loop of \<open>Decode\<close> leaves in the buffer: symbol \<open>p\<close> of a \<open>K\<close>-mer is read
  from bits \<open>2(K-1-p)\<close> and \<open>2(K-1-p)+1\<close> of the code.
\<close>

definition symbols :: "uint64 \<Rightarrow> nat \<Rightarrow> string" where
  "symbols c K = map (\<lambda>p. bit2base (take_bit 2 (drop_bit (2 * (K - 1 - p)) c))) [0..<K]"

subsection \<open>Sub-code operations\<close>

definition Prefix :: "uint64 \<Rightarrow> int \<Rightarrow> int \<Rightarrow> error + uint64" where
  "Prefix code k n =
     (if n < 1 \<or> n > k then Inl ErrLengthOverflow
      else shr_int code (int64 (push_bit 1 (int64 (k - n)))))"

definition Suffix :: "uint64 \<Rightarrow> int \<Rightarrow> int \<Rightarrow> error + uint64" where
  "Suffix code k i =
     (if i < 0 \<or> i \<ge> k then Inl ErrPositionOverflow
      else let s = int64 (push_bit 1 (int64 (k - i)))
           in if s < 0 then Inl RuntimeError
              else Inr (code AND (shl 1 (word_of_int s) - 1)))"

text \<open>
  \<open>bits.LeadingZeros64\<close> of the Go standard library: the number of leading zero bits
  of its argument, 64 for 0. \<open>lz_below n x\<close> counts the zero bits from position
  \<open>n - 1\<close> downwards, stopping at the first one bit.
\<close>

fun lz_below :: "nat \<Rightarrow> uint64 \<Rightarrow> nat" where
  "lz_below 0 x = 0"
| "lz_below (Suc n) x = (if bit x n then 0 else Suc (lz_below n x))"

definition LeadingZeros64 :: "uint64 \<Rightarrow> nat" where
  "LeadingZeros64 x = lz_below 64 x"

definition LongestPrefix :: "uint64 \<Rightarrow> uint64 \<Rightarrow> int \<Rightarrow> int \<Rightarrow> error + int" where
  "LongestPrefix code1 code2 k1 k2 =
     (if k1 \<le> 0 \<or> k1 > 32 \<or> k2 \<le> 0 \<or> k2 > 32 then Inl ErrKOverflow
      else if k1 \<ge> k2
        then Inr (int (LeadingZeros64 (shr code1 (word_of_int (push_bit 1 (k1 - k2))) XOR code2)) div 2
                  - (32 - k2))
        else Inr (int (LeadingZeros64 (code1 XOR shr code2 (word_of_int (push_bit 1 (k2 - k1))))) div 2
                  - (32 - k1)))"

subsection \<open>Sliding a window\<close>

text \<open>
  The loop of \<open>TestEncodeFromFormerKmer\<close>: the code of window \<open>0\<close> comes from
  \<open>Encode\<close>, the code of window \<open>i + 1\<close> from the incremental encoder \<open>enc\<close>, given
  window \<open>i + 1\<close>, window \<open>i\<close> and the code of window \<open>i\<close>. Window \<open>i\<close> of \<open>s\<close> is
  \<open>s[i : i+k]\<close>. The slide stops at the first error.
\<close>

fun slide_former ::
  "(string \<Rightarrow> string \<Rightarrow> uint64 \<Rightarrow> error + (uint64 \<times> error option)) \<Rightarrow>
   string \<Rightarrow> nat \<Rightarrow> nat \<Rightarrow> error + (uint64 \<times> error option)" where
  "slide_former enc s k 0 = Inr (Encode (take k s))"
| "slide_former enc s k (Suc i) =
     (case slide_former enc s k i of
        Inr (pCode, None) \<Rightarrow> enc (take k (drop (Suc i) s)) (take k (drop i s)) pCode
      | r \<Rightarrow> r)"

section \<open>Basic facts\<close>

lemma count_beyond: "\<not> n < (64 :: uint64) \<Longrightarrow> LENGTH(64) \<le> unat n"
  by (simp add: word_less_nat_alt)

lemma shl_eq: "shl x n = push_bit (unat n) x"
  using count_beyond [of n] by (cases "n < 64") (simp_all add: shl_def)

lemma shr_eq: "shr x n = drop_bit (unat n) x"
  using count_beyond [of n] by (cases "n < 64") (simp_all add: shr_def)

lemma int64_id: "- (2 ^ 63) \<le> x \<Longrightarrow> x < 2 ^ 63 \<Longrightarrow> int64 x = x"
  unfolding int64_def by (simp add: signed_of_int signed_take_bit_int_eq_self)

lemma three_mask: "(3 :: uint64) = mask 2"
  by (simp add: mask_eq_exp_minus_1)

lemma and_3: "x AND (3 :: uint64) = take_bit 2 x"
  by (simp add: three_mask take_bit_eq_mask)

lemma shl_1_minus_1: "shl 1 n - 1 = mask (unat n)"
  by (simp add: shl_eq mask_eq_exp_minus_1)

lemma bits_below_imp_less:
  fixes x :: uint64
  assumes "\<And>n. bit x n \<Longrightarrow> n < m"
  shows "unat x < 2 ^ m"
proof -
  have "take_bit m x = x"
    by (rule bit_word_eqI) (auto simp: bit_simps dest: assms)
  then have "unat x = take_bit m (unat x)"
    by (metis unsigned_take_bit_eq)
  then show ?thesis
    by (metis take_bit_nat_less_exp)
qed

lemma less_imp_bits_below:
  fixes x :: uint64
  assumes "unat x < 2 ^ m" and "bit x n"
  shows "n < m"
proof -
  have "take_bit m (unat x) = unat x"
    using assms(1) by (simp add: take_bit_nat_eq_self_iff)
  then have "take_bit m x = x"
    by (metis unsigned_take_bit_eq word_unat_eq_iff)
  then have "bit (take_bit m x) n"
    using assms(2) by simp
  then show ?thesis
    by (simp add: bit_simps)
qed

lemma base2bit_cases: "base2bit b \<in> {0, 1, 2, 3, 4}"
proof -
  have "length base2bit_tab = 256"
    by (simp add: base2bit_tab_def numeral_eq_Suc)
  moreover have "of_char b < (256 :: nat)"
    by (cases b) (simp add: of_char_def)
  ultimately have "of_char b < length base2bit_tab"
    by simp
  then have "base2bit b \<in> set base2bit_tab"
    unfolding base2bit_def by (rule nth_mem)
  moreover have "set base2bit_tab \<subseteq> {0, 1, 2, 3, 4}"
    by (simp add: base2bit_tab_def)
  ultimately show ?thesis by blast
qed

lemma base2bit_take_bit: "base2bit b \<noteq> 4 \<Longrightarrow> take_bit 2 (base2bit b) = base2bit b"
proof -
  assume "base2bit b \<noteq> 4"
  with base2bit_cases [of b] consider "base2bit b = 0" | "base2bit b = 1"
    | "base2bit b = 2" | "base2bit b = 3"
    by auto
  then show ?thesis
  proof cases
    case 1 then show ?thesis by simp
  next
    case 2 then show ?thesis by simp
  next
    case 3 
    have "take_bit 2 (2 :: uint64) = 2" by simp
    with 3 show ?thesis by simp
  next
    case 4
    have "take_bit 2 (3 :: uint64) = 3" by simp
    with 4 show ?thesis by simp
  qed
qed

lemma base2bit_bits: "base2bit b \<noteq> 4 \<Longrightarrow> bit (base2bit b) n \<Longrightarrow> n < 2"
proof -
  assume a: "base2bit b \<noteq> 4" and b: "bit (base2bit b) n"
  from b have "bit (take_bit 2 (base2bit b)) n"
    by (simp only: base2bit_take_bit [OF a])
  then show "n < 2"
    by (simp add: bit_take_bit_iff)
qed

lemma unat_word_of_int_small:
  assumes "0 \<le> j" "j < 2 ^ 64"
  shows "unat (word_of_int j :: uint64) = nat j"
proof -
  have "uint (word_of_int j :: uint64) = j mod 2 ^ 64"
    by (simp add: uint_word_of_int)
  also have "\<dots> = j"
    using assms by (rule mod_pos_pos_trivial)
  finally show ?thesis
    by (simp add: unat_eq_nat_uint)
qed

lemma unat_shift_count: "0 \<le> j \<Longrightarrow> j \<le> 32 \<Longrightarrow> unat (word_of_int (push_bit 1 j) :: uint64) = 2 * nat j"
proof -
  assume a: "0 \<le> j" "j \<le> 32"
  have p: "push_bit 1 j = 2 * j"
    by (simp add: push_bit_eq_mult)
  have "unat (word_of_int (2 * j) :: uint64) = nat (2 * j)"
    by (rule unat_word_of_int_small) (use a in auto)
  then show ?thesis
    unfolding p using a by (simp add: nat_mult_distrib)
qed

lemma unat_shl_len: "j \<le> 31 \<Longrightarrow> unat (shl (of_nat j) 1 :: uint64) = 2 * j"
proof -
  assume a: "j \<le> 31"
  have "shl (of_nat j) 1 = (word_of_int (2 * int j) :: uint64)"
    by (simp add: shl_eq push_bit_eq_mult mult.commute)
  moreover have "unat (word_of_int (2 * int j) :: uint64) = nat (2 * int j)"
    by (rule unat_word_of_int_small) (use a in auto)
  ultimately show ?thesis by simp
qed

subsection \<open>The encode loop, bit by bit\<close>

lemma encode_loop_bad:
  "\<exists>b\<in>set s. base2bit b = 4 \<Longrightarrow> snd (encode_loop s acc) = Some ErrIllegalBase"
  by (induction s arbitrary: acc) (auto simp: Let_def)

lemma encode_loop_ok:
  "\<forall>b\<in>set s. base2bit b \<noteq> 4 \<Longrightarrow> snd (encode_loop s acc) = None"
  by (induction s arbitrary: acc) (auto simp: Let_def)

lemma bit_step:
  assumes "base2bit b \<noteq> 4"
  shows "bit (shl acc 2 OR base2bit b) n \<longleftrightarrow>
         (if n < 2 then bit (base2bit b) n else n < 64 \<and> bit acc (n - 2))"
  using base2bit_bits [OF assms, of n]
  by (auto simp: shl_eq bit_simps)

lemma encode_loop_bit:
  "\<forall>b\<in>set s. base2bit b \<noteq> 4 \<Longrightarrow>
   bit (fst (encode_loop s acc)) n \<longleftrightarrow>
     n < 64 \<and> (if n < 2 * length s
               then bit (base2bit (s ! (length s - 1 - n div 2))) (n mod 2)
               else bit acc (n - 2 * length s))"
proof (induction s arbitrary: acc)
  case Nil
  then show ?case by (auto dest: bit_imp_le_length)
next
  case (Cons b bs)
  then have b: "base2bit b \<noteq> 4" and bs: "\<forall>b\<in>set bs. base2bit b \<noteq> 4"
    by simp_all
  have step: "fst (encode_loop (b # bs) acc) = fst (encode_loop bs (shl acc 2 OR base2bit b))"
    using b by (simp add: Let_def)
  consider "n < 2 * length bs" | "2 * length bs \<le> n" "n < 2 * length bs + 2"
    | "2 * length bs + 2 \<le> n"
    by linarith
  then show ?case
  proof cases
    case 1
    then have "length bs - n div 2 = Suc (length bs - 1 - n div 2)"
      by linarith
    with 1 show ?thesis
      unfolding step Cons.IH [OF bs] by simp
  next
    case 2
    then have d: "n div 2 = length bs" and m: "n - 2 * length bs = n mod 2"
      by presburger+
    from 2 show ?thesis
      unfolding step Cons.IH [OF bs] bit_step [OF b] using d m 
      by (auto dest: bit_imp_le_length)
  next
    case 3
    then have "n - 2 * length bs - 2 = n - 2 * length (b # bs)"
      by simp
    with 3 show ?thesis
      unfolding step Cons.IH [OF bs] bit_step [OF b] by auto
  qed
qed

subsection \<open>The decode loop\<close>

lemma decode_loop_eq:
  "i \<le> k \<Longrightarrow> length kmer = k \<Longrightarrow>
   decode_loop k i code kmer =
     map (\<lambda>p. bit2base (take_bit 2 (drop_bit (2 * (k - i - 1 - p)) code))) [0..<k - i]
     @ drop (k - i) kmer"
proof (induction k i code kmer rule: decode_loop.induct)
  case (1 k i code kmer)
  show ?case
  proof (cases "i < k")
    case False
    then have "decode_loop k i code kmer = kmer"
      by (subst decode_loop.simps) simp
    with False "1.prems" show ?thesis
      by simp
  next
    case True
    let ?x = "bit2base (code AND 3)"
    have ki: "k - i = Suc (k - (i + 1))"
      using True by simp
    have idx: "k - 1 - i = k - (i + 1)"
      by simp
    have len: "length (kmer[k - 1 - i := ?x]) = k"
      using "1.prems" by simp
    have "decode_loop k i code kmer = decode_loop k (i + 1) (shr code 2) (kmer[k - 1 - i := ?x])"
      using True by (subst decode_loop.simps) simp
    also have "\<dots> =
      map (\<lambda>p. bit2base (take_bit 2 (drop_bit (2 * (k - (i + 1) - 1 - p)) (shr code 2))))
        [0..<k - (i + 1)]
      @ drop (k - (i + 1)) (kmer[k - 1 - i := ?x])"
      using True len by (intro "1.IH") simp_all
    also have "drop (k - (i + 1)) (kmer[k - 1 - i := ?x]) = ?x # drop (k - i) kmer"
      using True "1.prems" unfolding idx ki
      by (simp add: Cons_nth_drop_Suc [symmetric] upd_conv_take_nth_drop)
    also have "map (\<lambda>p. bit2base (take_bit 2 (drop_bit (2 * (k - (i + 1) - 1 - p)) (shr code 2))))
        [0..<k - (i + 1)]
      = map (\<lambda>p. bit2base (take_bit 2 (drop_bit (2 * (k - i - 1 - p)) code))) [0..<k - (i + 1)]"
    proof (rule map_cong [OF refl])
      fix p assume "p \<in> set [0..<k - (i + 1)]"
      then have "2 + 2 * (k - (i + 1) - 1 - p) = 2 * (k - i - 1 - p)"
        by auto
      then show "bit2base (take_bit 2 (drop_bit (2 * (k - (i + 1) - 1 - p)) (shr code 2))) =
        bit2base (take_bit 2 (drop_bit (2 * (k - i - 1 - p)) code))"
        by (simp add: shr_eq del: mult_Suc_right)
    qed
    finally show ?thesis
      unfolding ki by (simp add: and_3)
  qed
qed

lemma decode_loop_0:
  "decode_loop k 0 code (replicate k c) =
     map (\<lambda>p. bit2base (take_bit 2 (drop_bit (2 * (k - 1 - p)) code))) [0..<k]"
  using decode_loop_eq [of 0 k "replicate k c" code] by simp

lemma encode_loop_symbol:
  assumes valid: "\<forall>b\<in>set s. base2bit b \<noteq> 4" and len: "length s \<le> 32" and p: "p < length s"
  shows "take_bit 2 (drop_bit (2 * (length s - 1 - p)) (fst (encode_loop s 0))) = base2bit (s ! p)"
proof (rule bit_word_eqI)
  fix n assume "n < LENGTH(64)"
  have sp: "base2bit (s ! p) \<noteq> 4"
    using valid p by simp
  show "bit (take_bit 2 (drop_bit (2 * (length s - 1 - p)) (fst (encode_loop s 0)))) n
        \<longleftrightarrow> bit (base2bit (s ! p)) n"
  proof (cases "n < 2")
    case False
    then show ?thesis
      using base2bit_bits [OF sp, of n] by (auto simp: bit_simps)
  next
    case True
    let ?m = "2 * (length s - 1 - p) + n"
    have m: "?m < 2 * length s" "?m < 64" "length s - 1 - ?m div 2 = p" "?m mod 2 = n"
      using True p len by auto
    show ?thesis
      using True m by (simp add: bit_simps encode_loop_bit [OF valid])
  qed
qed

lemma encode_loop_bits_below:
  assumes valid: "\<forall>b\<in>set s. base2bit b \<noteq> 4" and b: "bit (fst (encode_loop s 0)) n"
  shows "n < 2 * length s"
  using b unfolding encode_loop_bit [OF valid] by (simp split: if_splits)

subsection \<open>The table of maximal codes\<close>

lemma fold_update_nth:
  "distinct js \<Longrightarrow> i \<in> set js \<Longrightarrow> i < length tab \<Longrightarrow>
   fold (\<lambda>j t. t[j := f j]) js tab ! i = f i"
proof (induction js arbitrary: tab)
  case Nil
  then show ?case by simp
next
  case (Cons j js)
  show ?case
  proof (cases "i = j")
    case True
    have keep: "j \<notin> set js \<Longrightarrow> fold (\<lambda>j t. t[j := f j]) js t ! j = t ! j" for t
      by (induction js arbitrary: t) auto
    from Cons.prems True show ?thesis
      by (simp add: keep)
  next
    case False
    with Cons show ?thesis by simp
  qed
qed

lemma MaxCode_nth_entry: "1 \<le> k \<Longrightarrow> k \<le> 32 \<Longrightarrow> MaxCode ! k = MaxCode_entry k"
  unfolding MaxCode_def by (rule fold_update_nth) simp_all

lemma unat_exp: "k < 64 \<Longrightarrow> unat (2 ^ k :: uint64) = 2 ^ k"
proof -
  assume k: "k < 64"
  have "(2 ^ k :: uint64) = of_nat (2 ^ k)"
    by simp
  then have "unat (2 ^ k :: uint64) = 2 ^ k mod 2 ^ 64"
    by (simp only: unat_of_nat) simp
  moreover have "(2 :: nat) ^ k < 2 ^ 64"
    using k by (intro power_strict_increasing) simp_all
  ultimately show ?thesis
    by simp
qed

lemma MaxCode_nth: "1 \<le> k \<Longrightarrow> k \<le> 32 \<Longrightarrow> MaxCode ! k = mask (2 ^ k)"
proof -
  assume k: "1 \<le> k" "k \<le> 32"
  have "unat (of_nat k :: uint64) = k"
    using k by (simp add: unat_of_nat)
  then have "shl 1 (of_nat k) = (2 ^ k :: uint64)"
    by (simp add: shl_eq)
  moreover have "unat (2 ^ k :: uint64) = 2 ^ k"
    using k by (intro unat_exp) simp
  ultimately have "MaxCode_entry k = mask (2 ^ k)"
    by (simp add: MaxCode_entry_def shl_1_minus_1)
  then show ?thesis
    using k by (simp add: MaxCode_nth_entry)
qed

lemma below_MaxCode:
  fixes code :: uint64
  assumes k: "1 \<le> k" "k \<le> 32" and bits: "\<And>n. bit code n \<Longrightarrow> n < 2 * k"
  shows "\<not> code > MaxCode ! k"
proof -
  have "2 * k \<le> 2 ^ k"
    using k(1) by (induction k rule: nat_induct_at_least) auto
  have "take_bit (2 ^ k) code = code"
  proof (rule bit_word_eqI)
    fix n
    show "bit (take_bit (2 ^ k) code) n \<longleftrightarrow> bit code n"
    proof (cases "bit code n")
      case True
      with bits [of n] \<open>2 * k \<le> 2 ^ k\<close> show ?thesis
        by (simp add: bit_simps)
    next
      case False
      then show ?thesis
        by (simp add: bit_simps)
    qed
  qed
  then have "code AND mask (2 ^ k) = code"
    by (simp add: take_bit_eq_mask)
  moreover have "code AND mask (2 ^ k) \<le> mask (2 ^ k)"
    by (rule word_and_le1)
  ultimately have "code \<le> mask (2 ^ k)"
    by simp
  then show ?thesis
    using k by (simp add: MaxCode_nth not_less)
qed

lemma bit2base_base2bit:
  "b \<in> {CHR ''A'', CHR ''C'', CHR ''G'', CHR ''T''} \<Longrightarrow>
   base2bit b \<noteq> 4 \<and> bit2base (base2bit b) = b"
  by (auto simp: base2bit_def base2bit_tab_def bit2base_def bit2base_tab_def)

subsection \<open>One step of the sliding window\<close>

lemma Encode_ok:
  assumes "\<forall>b\<in>set s. base2bit b \<noteq> 4" "1 \<le> length s" "length s \<le> 32"
  shows "Encode s = (fst (encode_loop s 0), None)"
  using assms encode_loop_ok [of s 0] by (auto simp: Encode_def prod_eq_iff)

lemma encode_bit:
  assumes "\<forall>b\<in>set s. base2bit b \<noteq> 4"
  shows "bit (fst (encode_loop s 0)) n \<longleftrightarrow>
     n < 64 \<and> n < 2 * length s \<and> bit (base2bit (s ! (length s - 1 - n div 2))) (n mod 2)"
  unfolding encode_loop_bit [OF assms] by simp

lemma former_step:
  assumes vk: "\<forall>b\<in>set kmer. base2bit b \<noteq> 4" and vl: "\<forall>b\<in>set leftKmer. base2bit b \<noteq> 4"
    and len: "1 \<le> length kmer" "length kmer \<le> 32" "length leftKmer = length kmer"
    and cons: "take (length kmer - 1) kmer = drop 1 leftKmer"
  shows "MustEncodeFromFormerKmer kmer leftKmer (fst (encode_loop leftKmer 0))
         = Inr (fst (encode_loop kmer 0), None)"
proof -
  let ?k = "length kmer"
  let ?c = "fst (encode_loop leftKmer 0)"
  let ?v = "base2bit (kmer ! (?k - 1))"
  have ne: "kmer \<noteq> []"
    using len by auto
  have v: "?v \<noteq> 4"
    using vk len by simp
  have cnt: "unat (shl (of_nat (?k - 1)) 1 :: uint64) = 2 * (?k - 1)"
    using len by (intro unat_shl_len) simp
  define msk :: uint64 where "msk = shl 1 (shl (of_nat (?k - 1)) 1) - 1"
  have msk: "?c AND msk = take_bit (2 * (?k - 1)) ?c"
    unfolding msk_def shl_1_minus_1 cnt by (simp only: take_bit_eq_mask)
  have shift: "kmer ! j = leftKmer ! Suc j" if "j < ?k - 1" for j
  proof -
    have "kmer ! j = take (?k - 1) kmer ! j"
      using that by simp
    also have "\<dots> = drop 1 leftKmer ! j"
      by (simp only: cons)
    also have "\<dots> = leftKmer ! Suc j"
      using that len by simp
    finally show ?thesis .
  qed
  have "shl (?c AND msk) 2 OR ?v = fst (encode_loop kmer 0)"
  proof (rule bit_word_eqI)
    fix n assume n: "n < LENGTH(64)"
    show "bit (shl (?c AND msk) 2 OR ?v) n
          \<longleftrightarrow> bit (fst (encode_loop kmer 0)) n"
    proof (cases "n < 2")
      case True
      then have "n div 2 = 0" "n mod 2 = n" "n < 2 * ?k"
        using len by auto
      with True n show ?thesis
        unfolding bit_step [OF v] encode_bit [OF vk] by simp
    next
      case False
      show ?thesis
      proof (cases "n < 2 * ?k")
        case True
        have j: "?k - Suc (n div 2) < ?k - 1"
          using False True by auto
        have idx: "?k - Suc ((n - 2) div 2) = Suc (?k - Suc (n div 2))"
          using False True len by auto
        have m: "(n - 2) mod 2 = n mod 2"
          using False by presburger
        from False True n show ?thesis
          unfolding bit_step [OF v] encode_bit [OF vk] 
          by (auto simp: msk bit_simps encode_bit [OF vl] len idx m shift [OF j])
      next
        case nk: False
        with False n show ?thesis
          unfolding bit_step [OF v] encode_bit [OF vk] 
          by (auto simp: msk bit_simps)
      qed
    qed
  qed
  then show ?thesis
    using ne v by (simp add: MustEncodeFromFormerKmer_def Let_def msk_def)
qed

lemma EncodeFromFormerKmer_consecutive:
  "1 \<le> length kmer \<Longrightarrow> length leftKmer = length kmer \<Longrightarrow>
   take (length kmer - 1) kmer = drop 1 leftKmer \<Longrightarrow>
   EncodeFromFormerKmer kmer leftKmer c = MustEncodeFromFormerKmer kmer leftKmer c"
  by (auto simp: EncodeFromFormerKmer_def)

lemma window_consecutive:
  assumes "Suc i + k \<le> length s" "1 \<le> k"
  shows "take (k - 1) (take k (drop (Suc i) s)) = drop 1 (take k (drop i s))"
proof (rule nth_equalityI)
  show "length (take (k - 1) (take k (drop (Suc i) s))) = length (drop 1 (take k (drop i s)))"
    using assms by simp
next
  fix j assume "j < length (take (k - 1) (take k (drop (Suc i) s)))"
  then have "j < k - 1" by simp
  then show "take (k - 1) (take k (drop (Suc i) s)) ! j = drop 1 (take k (drop i s)) ! j"
    using assms by simp
qed

subsection \<open>The symbol table\<close>

lemma table_entries:
  "filter (\<lambda>b. base2bit b \<noteq> 4) (map char_of [0..<256::nat]) = ''ABCDGHKMNRSTUVWYabcdghkmnrstuvwy''"
  by code_simp

lemma has_entry_iff:
  "base2bit b \<noteq> 4 \<longleftrightarrow> b \<in> set ''ABCDGHKMNRSTUVWYabcdghkmnrstuvwy''"
proof -
  have "of_char b < (256 :: nat)"
    by simp
  then have "of_char b \<in> set [0..<256::nat]"
    by simp
  then have "char_of (of_char b :: nat) \<in> set (map char_of [0..<256::nat])"
    unfolding set_map by (rule imageI)
  then have "b \<in> set (map char_of [0..<256::nat])"
    by simp
  then have "base2bit b \<noteq> 4 \<longleftrightarrow> b \<in> set (filter (\<lambda>b. base2bit b \<noteq> 4) (map char_of [0..<256::nat]))"
    by simp
  then show ?thesis
    by (simp only: table_entries)
qed

lemma degenerate_first:
  "\<forall>(d, bases)\<in>set degenerate_bases.
     base2bit d = base2bit (hd bases) \<and> base2bit (char_of (of_char d + (32 :: nat))) = base2bit (hd bases)"
  by code_simp

subsection \<open>The swap cascade reverses the 32 symbols\<close>

lemma mask_bits:
  "\<forall>n\<in>set [0..<64]. bit (0x3333333333333333 :: uint64) n = (n mod 4 < 2)"
  "\<forall>n\<in>set [0..<64]. bit (0x0F0F0F0F0F0F0F0F :: uint64) n = (n mod 8 < 4)"
  "\<forall>n\<in>set [0..<64]. bit (0x00FF00FF00FF00FF :: uint64) n = (n mod 16 < 8)"
  "\<forall>n\<in>set [0..<64]. bit (0x0000FFFF0000FFFF :: uint64) n = (n mod 32 < 16)"
  "\<forall>n\<in>set [0..<64]. bit (0x00000000FFFFFFFF :: uint64) n = (n mod 64 < 32)"
  by code_simp+

lemma mask_bit:
  "bit (0x3333333333333333 :: uint64) n \<longleftrightarrow> n < 64 \<and> n mod 4 < 2"
  "bit (0x0F0F0F0F0F0F0F0F :: uint64) n \<longleftrightarrow> n < 64 \<and> n mod 8 < 4"
  "bit (0x00FF00FF00FF00FF :: uint64) n \<longleftrightarrow> n < 64 \<and> n mod 16 < 8"
  "bit (0x0000FFFF0000FFFF :: uint64) n \<longleftrightarrow> n < 64 \<and> n mod 32 < 16"
  "bit (0x00000000FFFFFFFF :: uint64) n \<longleftrightarrow> n < 64 \<and> n mod 64 < 32"
  using mask_bits bit_imp_le_length [of _ n, where 'a = 64]
  by (cases "n < 64"; auto)+

lemma stage_generic:
  fixes c m :: uint64
  assumes "unat sh = j"
  shows "bit ((shr c sh AND m) OR shl (c AND m) sh) n \<longleftrightarrow>
     (bit c (n + j) \<and> bit m n) \<or> (j \<le> n \<and> n < 64 \<and> bit c (n - j) \<and> bit m (n - j))"
  unfolding shl_eq shr_eq assms by (auto simp: bit_simps add.commute)

lemma swap_index:
  "\<forall>n\<in>set [0..<64]. (n mod 4 < 2 \<longrightarrow> \<not> (2 \<le> n \<and> (n - 2) mod 4 < 2))
      \<and> (\<not> n mod 4 < 2 \<longrightarrow> 2 \<le> n \<and> (n - 2) mod 4 < 2)"
  "\<forall>n\<in>set [0..<64]. (n mod 8 < 4 \<longrightarrow> \<not> (4 \<le> n \<and> (n - 4) mod 8 < 4))
      \<and> (\<not> n mod 8 < 4 \<longrightarrow> 4 \<le> n \<and> (n - 4) mod 8 < 4)"
  "\<forall>n\<in>set [0..<64]. (n mod 16 < 8 \<longrightarrow> \<not> (8 \<le> n \<and> (n - 8) mod 16 < 8))
      \<and> (\<not> n mod 16 < 8 \<longrightarrow> 8 \<le> n \<and> (n - 8) mod 16 < 8)"
  "\<forall>n\<in>set [0..<64]. (n mod 32 < 16 \<longrightarrow> \<not> (16 \<le> n \<and> (n - 16) mod 32 < 16))
      \<and> (\<not> n mod 32 < 16 \<longrightarrow> 16 \<le> n \<and> (n - 16) mod 32 < 16)"
  "\<forall>n\<in>set [0..<64]. (n mod 64 < 32 \<longrightarrow> \<not> (32 \<le> n \<and> (n - 32) mod 64 < 32))
      \<and> (\<not> n mod 64 < 32 \<longrightarrow> 32 \<le> n \<and> (n - 32) mod 64 < 32)"
  by code_simp+

lemma stage_swap:
  fixes c m :: uint64
  assumes u: "unat sh = j"
    and m: "\<And>n. bit m n \<longleftrightarrow> n < 64 \<and> P n"
    and idx: "\<forall>n\<in>set [0..<64]. (P n \<longrightarrow> \<not> (j \<le> n \<and> P (n - j)))
      \<and> (\<not> P n \<longrightarrow> j \<le> n \<and> P (n - j))"
  shows "bit ((shr c sh AND m) OR shl (c AND m) sh) n \<longleftrightarrow>
     n < 64 \<and> bit c (if P n then n + j else n - j)"
proof (cases "n < 64")
  case False
  then show ?thesis
    unfolding stage_generic [OF u] m by auto
next
  case True
  then have "n \<in> set [0..<64]" by simp
  with idx have "(P n \<longrightarrow> \<not> (j \<le> n \<and> P (n - j))) \<and> (\<not> P n \<longrightarrow> j \<le> n \<and> P (n - j))"
    by blast
  with True show ?thesis
    unfolding stage_generic [OF u] m by auto
qed

lemma stage2:
  "bit ((shr c 2 AND 0x3333333333333333) OR shl (c AND 0x3333333333333333) 2) n \<longleftrightarrow>
     n < 64 \<and> bit c (if n mod 4 < 2 then n + 2 else n - 2)"
  by (rule stage_swap [where P = "\<lambda>n. n mod 4 < 2", OF _ mask_bit(1) swap_index(1)]) simp

lemma stage4:
  "bit ((shr c 4 AND 0x0F0F0F0F0F0F0F0F) OR shl (c AND 0x0F0F0F0F0F0F0F0F) 4) n \<longleftrightarrow>
     n < 64 \<and> bit c (if n mod 8 < 4 then n + 4 else n - 4)"
  by (rule stage_swap [where P = "\<lambda>n. n mod 8 < 4", OF _ mask_bit(2) swap_index(2)]) simp

lemma stage8:
  "bit ((shr c 8 AND 0x00FF00FF00FF00FF) OR shl (c AND 0x00FF00FF00FF00FF) 8) n \<longleftrightarrow>
     n < 64 \<and> bit c (if n mod 16 < 8 then n + 8 else n - 8)"
  by (rule stage_swap [where P = "\<lambda>n. n mod 16 < 8", OF _ mask_bit(3) swap_index(3)]) simp

lemma stage16:
  "bit ((shr c 16 AND 0x0000FFFF0000FFFF) OR shl (c AND 0x0000FFFF0000FFFF) 16) n \<longleftrightarrow>
     n < 64 \<and> bit c (if n mod 32 < 16 then n + 16 else n - 16)"
  by (rule stage_swap [where P = "\<lambda>n. n mod 32 < 16", OF _ mask_bit(4) swap_index(4)]) simp

lemma stage32:
  "bit ((shr c 32 AND 0x00000000FFFFFFFF) OR shl (c AND 0x00000000FFFFFFFF) 32) n \<longleftrightarrow>
     n < 64 \<and> bit c (if n mod 64 < 32 then n + 32 else n - 32)"
  by (rule stage_swap [where P = "\<lambda>n. n mod 64 < 32", OF _ mask_bit(5) swap_index(5)]) simp

lemma cascade_index:
  "\<forall>n\<in>set [0..<64].
     (let a = (if n mod 64 < 32 then n + 32 else n - 32);
          b = (if a mod 32 < 16 then a + 16 else a - 16);
          c = (if b mod 16 < 8 then b + 8 else b - 8);
          d = (if c mod 8 < 4 then c + 4 else c - 4);
          e = (if d mod 4 < 2 then d + 2 else d - 2)
      in a < 64 \<and> b < 64 \<and> c < 64 \<and> d < 64 \<and> e = 62 + n mod 2 - 2 * (n div 2))"
  by code_simp

lemma swap_cascade_bit:
  "bit (swap_cascade c) n \<longleftrightarrow> n < 64 \<and> bit c (62 + n mod 2 - 2 * (n div 2))"
proof (cases "n < 64")
  case False
  then show ?thesis
    unfolding swap_cascade_def Let_def stage32 by simp
next
  case True
  define a where "a = (if n mod 64 < 32 then n + 32 else n - 32)"
  define b where "b = (if a mod 32 < 16 then a + 16 else a - 16)"
  define c' where "c' = (if b mod 16 < 8 then b + 8 else b - 8)"
  define d where "d = (if c' mod 8 < 4 then c' + 4 else c' - 4)"
  define e where "e = (if d mod 4 < 2 then d + 2 else d - 2)"
  from True have "n \<in> set [0..<64]" by simp
  from cascade_index [rule_format, OF this]
  have idx: "a < 64 \<and> b < 64 \<and> c' < 64 \<and> d < 64 \<and> e = 62 + n mod 2 - 2 * (n div 2)"
    unfolding Let_def a_def b_def c'_def d_def e_def .
  have "bit (swap_cascade c) n \<longleftrightarrow> n < 64 \<and> a < 64 \<and> b < 64 \<and> c' < 64 \<and> d < 64 \<and> bit c e"
    unfolding swap_cascade_def Let_def stage32 stage16 stage8 stage4 stage2
      a_def b_def c'_def d_def e_def ..
  with idx True show ?thesis
    by simp
qed

subsection \<open>Reverse, complement and reverse complement on k symbols\<close>

lemma mirror_index:
  fixes K n :: nat
  assumes "n < 2 * K"
  shows "2 * K - 2 + n mod 2 - 2 * (n div 2) < 2 * K"
    and "(2 * K - 2 + n mod 2 - 2 * (n div 2)) mod 2 = n mod 2"
    and "(2 * K - 2 + n mod 2 - 2 * (n div 2)) div 2 = K - 1 - n div 2"
    and "2 * K - 2 + (2 * K - 2 + n mod 2 - 2 * (n div 2)) mod 2
           - 2 * ((2 * K - 2 + n mod 2 - 2 * (n div 2)) div 2) = n"
proof -
  define q r where "q = n div 2" and "r = n mod 2"
  have n: "n = 2 * q + r" and r: "r < 2"
    by (simp_all add: q_def r_def)
  have q: "q < K"
    using assms n by linarith
  have e: "2 * K - 2 + r - 2 * q = 2 * (K - 1 - q) + r"
    using q by linarith
  show "2 * K - 2 + n mod 2 - 2 * (n div 2) < 2 * K"
    unfolding q_def [symmetric] r_def [symmetric] e using q r by linarith
  show m: "(2 * K - 2 + n mod 2 - 2 * (n div 2)) mod 2 = n mod 2"
    unfolding q_def [symmetric] r_def [symmetric] e using r by simp
  show d: "(2 * K - 2 + n mod 2 - 2 * (n div 2)) div 2 = K - 1 - n div 2"
    unfolding q_def [symmetric] r_def [symmetric] e using r by simp
  show "2 * K - 2 + (2 * K - 2 + n mod 2 - 2 * (n div 2)) mod 2
           - 2 * ((2 * K - 2 + n mod 2 - 2 * (n div 2)) div 2) = n"
    unfolding m d unfolding q_def [symmetric] r_def [symmetric] using q n by linarith
qed

lemma mirror_shift:
  fixes q K r :: nat
  assumes a: "q < K" "K \<le> 32"
  shows "62 + r - 2 * (32 - K + q) = 2 * K - 2 + r - 2 * q"
proof -
  from a obtain j where j: "K = Suc q + j"
    using less_iff_Suc_add by auto
  from a obtain i where i: "32 = K + i"
    using le_Suc_ex by blast
  then have "32 - K = i"
    by simp
  then show ?thesis
    using j i by simp
qed

lemma reverse_bit:
  assumes "1 \<le> K" "K \<le> 32"
  shows "bit (drop_bit (2 * (32 - K)) (swap_cascade c)) n \<longleftrightarrow>
         n < 2 * K \<and> bit c (2 * K - 2 + n mod 2 - 2 * (n div 2))"
proof (cases "n < 2 * K")
  case False
  then have "\<not> 2 * (32 - K) + n < 64"
    using assms by linarith
  with False show ?thesis
    by (simp add: bit_drop_bit_eq swap_cascade_bit)
next
  case True
  have lt: "2 * (32 - K) + n < 64"
    using True assms by linarith
  have md: "(2 * (32 - K) + n) mod 2 = n mod 2" "(2 * (32 - K) + n) div 2 = 32 - K + n div 2"
    by simp_all
  define q r where "q = n div 2" and "r = n mod 2"
  have "n = 2 * q + r"
    by (simp add: q_def r_def)
  then have "q < K"
    using True by linarith
  then have "62 + r - 2 * (32 - K + q) = 2 * K - 2 + r - 2 * q"
    using assms(2) by (rule mirror_shift)
  then have eq: "62 + n mod 2 - 2 * (32 - K + n div 2) = 2 * K - 2 + n mod 2 - 2 * (n div 2)"
    unfolding q_def r_def .
  have "bit (drop_bit (2 * (32 - K)) (swap_cascade c)) n
        \<longleftrightarrow> bit (swap_cascade c) (2 * (32 - K) + n)"
    by (simp add: bit_drop_bit_eq)
  also have "\<dots> \<longleftrightarrow> 2 * (32 - K) + n < 64
      \<and> bit c (62 + (2 * (32 - K) + n) mod 2 - 2 * ((2 * (32 - K) + n) div 2))"
    by (rule swap_cascade_bit)
  also have "\<dots> \<longleftrightarrow> bit c (62 + n mod 2 - 2 * (32 - K + n div 2))"
    using lt by (simp only: md simp_thms)
  also have "\<dots> \<longleftrightarrow> n < 2 * K \<and> bit c (2 * K - 2 + n mod 2 - 2 * (n div 2))"
    using True by (simp only: eq simp_thms)
  finally show ?thesis .
qed

lemma Reverse_eq:
  "1 \<le> k \<Longrightarrow> k \<le> 32 \<Longrightarrow>
   Reverse c k = Inr (drop_bit (2 * (32 - nat k)) (swap_cascade c))"
  using unat_shift_count [of "32 - k"]
  by (simp add: Reverse_def shr_eq nat_diff_distrib)

lemma RevComp_eq:
  "1 \<le> k \<Longrightarrow> k \<le> 32 \<Longrightarrow>
   RevComp c k = Inr (drop_bit (2 * (32 - nat k)) (swap_cascade (NOT c)))"
  using unat_shift_count [of "32 - k"]
  by (simp add: RevComp_def shr_eq nat_diff_distrib)

lemma Complement_eq:
  "1 \<le> k \<Longrightarrow> k \<le> 32 \<Longrightarrow> Complement c k = Inr (c XOR mask (2 * nat k))"
  using unat_shift_count [of k]
  by (simp add: Complement_def shl_1_minus_1)

lemma mirror_less: "n < 2 * K \<Longrightarrow> mirror K n < 2 * K"
  unfolding mirror_def by (rule mirror_index(1))

lemma mirror_mirror: "n < 2 * K \<Longrightarrow> mirror K (mirror K n) = n"
  unfolding mirror_def by (rule mirror_index(4))

lemma Reverse_bit:
  "1 \<le> K \<Longrightarrow> K \<le> 32 \<Longrightarrow>
   bit (drop_bit (2 * (32 - K)) (swap_cascade c)) n \<longleftrightarrow> n < 2 * K \<and> bit c (mirror K n)"
  unfolding mirror_def by (rule reverse_bit)

lemma RevComp_bit:
  assumes K: "1 \<le> K" "K \<le> 32"
  shows "bit (drop_bit (2 * (32 - K)) (swap_cascade (NOT c))) n \<longleftrightarrow>
         n < 2 * K \<and> \<not> bit c (mirror K n)"
proof (cases "n < 2 * K")
  case False
  then show ?thesis
    by (simp only: Reverse_bit [OF K] simp_thms)
next
  case True
  from mirror_less [OF True] K have "mirror K n < 64"
    by linarith
  then show ?thesis
    by (simp add: Reverse_bit [OF K] bit_not_iff)
qed

lemma Complement_bit:
  fixes c :: uint64
  assumes "K \<le> 32"
  shows "bit (c XOR mask (2 * K)) n \<longleftrightarrow> n < 64 \<and> (bit c n \<noteq> (n < 2 * K))"
  using assms bit_imp_le_length [of c n] by (auto simp: bit_simps)

lemma RevComp_bit_eqs:
  assumes K: "1 \<le> K" "K \<le> 32"
  shows "drop_bit (2 * (32 - K)) (swap_cascade (c XOR mask (2 * K)))
           = drop_bit (2 * (32 - K)) (swap_cascade (NOT c))"
    and "drop_bit (2 * (32 - K)) (swap_cascade c) XOR mask (2 * K)
           = drop_bit (2 * (32 - K)) (swap_cascade (NOT c))"
proof -
  show "drop_bit (2 * (32 - K)) (swap_cascade (c XOR mask (2 * K)))
           = drop_bit (2 * (32 - K)) (swap_cascade (NOT c))"
  proof (rule bit_word_eqI)
    fix n assume "n < LENGTH(64)"
    show "bit (drop_bit (2 * (32 - K)) (swap_cascade (c XOR mask (2 * K)))) n
      \<longleftrightarrow> bit (drop_bit (2 * (32 - K)) (swap_cascade (NOT c))) n"
    proof (cases "n < 2 * K")
      case False
      then show ?thesis
        by (simp only: Reverse_bit [OF K] simp_thms)
    next
      case True
      have m: "mirror K n < 2 * K" "mirror K n < 64"
        using mirror_less [OF True] K by linarith+
      then have "bit (c XOR mask (2 * K)) (mirror K n) \<longleftrightarrow> \<not> bit c (mirror K n)"
        unfolding Complement_bit [OF K(2)] by simp
      with True show ?thesis
        by (simp only: RevComp_bit [OF K]) (simp only: Reverse_bit [OF K])
    qed
  qed
  show "drop_bit (2 * (32 - K)) (swap_cascade c) XOR mask (2 * K)
           = drop_bit (2 * (32 - K)) (swap_cascade (NOT c))"
  proof (rule bit_word_eqI)
    fix n assume "n < LENGTH(64)"
    then show "bit (drop_bit (2 * (32 - K)) (swap_cascade c) XOR mask (2 * K)) n
      \<longleftrightarrow> bit (drop_bit (2 * (32 - K)) (swap_cascade (NOT c))) n"
      by (simp only: RevComp_bit [OF K] Complement_bit [OF K(2)])
        (auto simp: Reverse_bit [OF K])
  qed
qed

lemma RevComp_involution:
  assumes K: "1 \<le> K" "K \<le> 32" and c: "unat c < 2 ^ (2 * K)"
  shows "drop_bit (2 * (32 - K)) (swap_cascade (NOT (drop_bit (2 * (32 - K)) (swap_cascade (NOT c))))) = c"
proof (rule bit_word_eqI)
  fix n assume "n < LENGTH(64)"
  show "bit (drop_bit (2 * (32 - K))
          (swap_cascade (NOT (drop_bit (2 * (32 - K)) (swap_cascade (NOT c)))))) n \<longleftrightarrow> bit c n"
  proof (cases "n < 2 * K")
    case False
    with c have "\<not> bit c n"
      using less_imp_bits_below by blast
    with False show ?thesis
      by (simp only: RevComp_bit [OF K] simp_thms)
  next
    case True
    have "bit (drop_bit (2 * (32 - K)) (swap_cascade (NOT c))) (mirror K n)
        \<longleftrightarrow> \<not> bit c (mirror K (mirror K n))"
      using mirror_less [OF True] by (simp only: RevComp_bit [OF K] simp_thms)
    then show ?thesis
      using True by (simp add: RevComp_bit [OF K] mirror_mirror)
  qed
qed

subsection \<open>Signed shift counts and the sub-code operations\<close>

lemma shift_count_int64:
  assumes "0 \<le> j" "j \<le> 32"
  shows "int64 (push_bit 1 (int64 j)) = 2 * j"
proof -
  have "int64 j = j"
    using assms by (intro int64_id) simp_all
  moreover have "int64 (2 * j) = 2 * j"
    using assms by (intro int64_id) simp_all
  ultimately show ?thesis
    by (simp add: push_bit_eq_mult mult.commute)
qed

lemma shr_int_count:
  assumes "0 \<le> j" "j \<le> 32"
  shows "shr_int x (int64 (push_bit 1 (int64 j))) = Inr (drop_bit (2 * nat j) x)"
proof -
  have "unat (word_of_int (2 * j) :: uint64) = nat (2 * j)"
    using assms by (intro unat_word_of_int_small) simp_all
  then show ?thesis
    unfolding shift_count_int64 [OF assms] shr_int_def shr_eq
    using assms by (simp add: nat_mult_distrib)
qed

lemma mask_count:
  assumes "0 \<le> j" "j \<le> 32"
  shows "shl 1 (word_of_int (2 * j)) - 1 = (mask (2 * nat j) :: uint64)"
proof -
  have "unat (word_of_int (2 * j) :: uint64) = nat (2 * j)"
    using assms by (intro unat_word_of_int_small) simp_all
  then show ?thesis
    unfolding shl_1_minus_1 using assms by (simp add: nat_mult_distrib)
qed

lemma Prefix_eq:
  assumes "1 \<le> n" "n \<le> k" "k \<le> 32"
  shows "Prefix c k n = Inr (drop_bit (2 * nat (k - n)) c)"
proof -
  have j: "0 \<le> k - n" "k - n \<le> 32"
    using assms by simp_all
  show ?thesis
    unfolding Prefix_def shr_int_count [OF j] using assms by simp
qed

lemma Suffix_eq:
  assumes "0 \<le> i" "i < k" "k \<le> 32"
  shows "Suffix c k i = Inr (c AND mask (2 * nat (k - i)))"
proof -
  have j: "0 \<le> k - i" "k - i \<le> 32"
    using assms by simp_all
  have "\<not> 2 * (k - i) < 0"
    using j by simp
  then show ?thesis
    unfolding Suffix_def shift_count_int64 [OF j] Let_def mask_count [OF j]
    using assms by (simp only: if_False) simp
qed

lemma Must_variants:
  assumes "1 \<le> k" "k \<le> 32"
  shows "MustReverse c k = Reverse c k" "MustRevComp c k = RevComp c k"
    "MustCanonical c k = Canonical c k" "Inr (MustComplement c k) = Complement c k"
proof -
  have j: "0 \<le> 32 - k" "32 - k \<le> 32"
    using assms by simp_all
  have n: "2 * nat (32 - k) = 2 * (32 - nat k)"
    using assms by (simp add: nat_diff_distrib)
  show "MustReverse c k = Reverse c k"
    unfolding MustReverse_def shr_int_count [OF j] n using assms by (simp add: Reverse_eq)
  show r: "MustRevComp c k = RevComp c k"
    unfolding MustRevComp_def shr_int_count [OF j] n using assms by (simp add: RevComp_eq)
  have sh: "shr (swap_cascade (NOT c)) (word_of_int (push_bit 1 (32 - k)))
      = drop_bit (2 * (32 - nat k)) (swap_cascade (NOT c))"
    using RevComp_eq [OF assms, of c] assms by (simp add: RevComp_def)
  show "MustCanonical c k = Canonical c k"
    unfolding MustCanonical_def Canonical_def shr_int_count [OF j] n sh Let_def
    using assms by simp
  show "Inr (MustComplement c k) = Complement c k"
    unfolding MustComplement_def Complement_def using assms by simp
qed

subsection \<open>Results stay below the bound\<close>

lemma Reverse_below:
  "1 \<le> K \<Longrightarrow> K \<le> 32 \<Longrightarrow> unat (drop_bit (2 * (32 - K)) (swap_cascade x)) < 2 ^ (2 * K)"
  by (rule bits_below_imp_less) (simp add: Reverse_bit)

lemma Complement_below:
  fixes c :: uint64
  assumes "K \<le> 32" "unat c < 2 ^ (2 * K)"
  shows "unat (c XOR mask (2 * K)) < 2 ^ (2 * K)"
proof (rule bits_below_imp_less)
  fix n assume "bit (c XOR mask (2 * K)) n"
  then show "n < 2 * K"
    unfolding Complement_bit [OF assms(1)] using less_imp_bits_below [OF assms(2), of n] by auto
qed

lemma Prefix_below:
  fixes c :: uint64
  assumes "N \<le> K" "unat c < 2 ^ (2 * K)"
  shows "unat (drop_bit (2 * (K - N)) c) < 2 ^ (2 * N)"
proof (rule bits_below_imp_less)
  fix n assume "bit (drop_bit (2 * (K - N)) c) n"
  then have "bit c (2 * (K - N) + n)"
    by (simp add: bit_drop_bit_eq)
  then have "2 * (K - N) + n < 2 * K"
    by (rule less_imp_bits_below [OF assms(2)])
  then show "n < 2 * N"
    using assms(1) by linarith
qed

lemma Suffix_below:
  fixes c :: uint64
  shows "unat (c AND mask m) < 2 ^ m"
  by (rule bits_below_imp_less) (simp add: bit_simps)

lemma former_below:
  assumes len: "1 \<le> length kmer" "length kmer \<le> 32"
  shows "\<exists>r e. MustEncodeFromFormerKmer kmer other c = Inr (r, e) \<and>
           (e = None \<or> r = c) \<and> (e = None \<longrightarrow> unat r < 2 ^ (2 * length kmer))"
proof (cases "base2bit (kmer ! (length kmer - 1)) = 4")
  case True
  with len show ?thesis
    by (auto simp: MustEncodeFromFormerKmer_def)
next
  case False
  let ?k = "length kmer"
  have cnt: "unat (shl (of_nat (?k - 1)) 1 :: uint64) = 2 * (?k - 1)"
    using len by (intro unat_shl_len) simp
  define msk :: uint64 where "msk = shl 1 (shl (of_nat (?k - 1)) 1) - 1"
  have msk: "c AND msk = take_bit (2 * (?k - 1)) c"
    unfolding msk_def shl_1_minus_1 cnt by (simp only: take_bit_eq_mask)
  have "unat (shl (c AND msk) 2 OR base2bit (kmer ! (?k - 1))) < 2 ^ (2 * ?k)"
  proof (rule bits_below_imp_less)
    fix n assume "bit (shl (c AND msk) 2 OR base2bit (kmer ! (?k - 1))) n"
    then show "n < 2 * ?k"
      unfolding bit_step [OF False] msk using len
      by (auto simp: bit_simps split: if_splits)
  qed
  with False len show ?thesis
    by (auto simp: MustEncodeFromFormerKmer_def Let_def msk_def)
qed

lemma latter_below:
  assumes len: "1 \<le> length kmer" "length kmer \<le> 32" and c: "unat c < 2 ^ (2 * length kmer)"
  shows "\<exists>r e. MustEncodeFromLatterKmer kmer other c = Inr (r, e) \<and>
           (e = None \<or> r = c) \<and> (e = None \<longrightarrow> unat r < 2 ^ (2 * length kmer))"
proof (cases "base2bit (kmer ! 0) = 4")
  case True
  with len show ?thesis
    by (auto simp: MustEncodeFromLatterKmer_def)
next
  case False
  let ?k = "length kmer"
  have cnt: "unat (shl (of_nat (?k - 1)) 1 :: uint64) = 2 * (?k - 1)"
    using len by (intro unat_shl_len) simp
  define cn :: uint64 where "cn = shl (of_nat (?k - 1)) 1"
  have cn: "unat cn = 2 * (?k - 1)"
    unfolding cn_def by (rule cnt)
  have "unat (shl (base2bit (kmer ! 0)) cn OR shr c 2) < 2 ^ (2 * ?k)"
  proof (rule bits_below_imp_less)
    fix n assume "bit (shl (base2bit (kmer ! 0)) cn OR shr c 2) n"
    then consider "2 * (?k - 1) \<le> n" "bit (base2bit (kmer ! 0)) (n - 2 * (?k - 1))"
      | "bit c (2 + n)"
      unfolding shl_eq shr_eq cn by (auto simp: bit_simps)
    then show "n < 2 * ?k"
    proof cases
      case 1
      from base2bit_bits [OF False 1(2)] 1(1) len show ?thesis
        by linarith
    next
      case 2
      from less_imp_bits_below [OF c 2] show ?thesis
        by simp
    qed
  qed
  with False len show ?thesis
    by (auto simp: MustEncodeFromLatterKmer_def Let_def cn_def)
qed

lemma checked_former_cases:
  "EncodeFromFormerKmer kmer other c = MustEncodeFromFormerKmer kmer other c
   \<or> (\<exists>e. EncodeFromFormerKmer kmer other c = Inr (0, Some e))"
  by (simp add: EncodeFromFormerKmer_def)

lemma checked_latter_cases:
  "EncodeFromLatterKmer kmer other c = MustEncodeFromLatterKmer kmer other c
   \<or> (\<exists>e. EncodeFromLatterKmer kmer other c = Inr (0, Some e))"
  by (simp add: EncodeFromLatterKmer_def)

subsection \<open>Leading zeros and common prefixes\<close>

lemma lz_below_zeros:
  "m \<le> n \<Longrightarrow> (\<And>j. m \<le> j \<Longrightarrow> j < n \<Longrightarrow> \<not> bit x j) \<Longrightarrow>
   lz_below n x = (n - m) + lz_below m x"
proof (induction n)
  case 0
  then show ?case by simp
next
  case (Suc n)
  show ?case
  proof (cases "m = Suc n")
    case True
    then show ?thesis by simp
  next
    case False
    with Suc.prems have mn: "m \<le> n" by simp
    have "\<not> bit x n"
      using Suc.prems(2) [of n] mn by simp
    moreover have "lz_below n x = (n - m) + lz_below m x"
      using mn Suc.prems(2) by (intro Suc.IH) simp_all
    ultimately show ?thesis
      using mn by simp
  qed
qed

lemma LeadingZeros64_0: "LeadingZeros64 0 = 64"
  unfolding LeadingZeros64_def using lz_below_zeros [of 0 64 0] by simp

lemma LeadingZeros64_top:
  assumes "bit x p" and "\<And>j. p < j \<Longrightarrow> \<not> bit x j"
  shows "LeadingZeros64 x = 63 - p"
proof -
  have p: "p < 64"
    using assms(1) bit_imp_le_length [of x p] by simp
  then have "lz_below 64 x = (64 - Suc p) + lz_below (Suc p) x"
    using assms(2) by (intro lz_below_zeros) simp_all
  with assms(1) p show ?thesis
    by (simp add: LeadingZeros64_def)
qed

lemma MustDecode_eq: "0 \<le> k \<Longrightarrow> MustDecode c k = Inr (symbols c (nat k))"
  by (simp add: MustDecode_def symbols_def decode_loop_0)

lemma length_symbols: "length (symbols c K) = K"
  by (simp add: symbols_def)

lemma symbols_Suc:
  "symbols c (Suc K) = bit2base (take_bit 2 (drop_bit (2 * K) c)) # symbols c K"
  unfolding symbols_def by (simp add: map_upt_Suc del: upt_Suc)

lemma symbols_take_bit: "symbols (take_bit (2 * K) c) K = symbols c K"
proof -
  have "take_bit 2 (drop_bit (2 * (K - 1 - p)) (take_bit (2 * K) c))
      = take_bit 2 (drop_bit (2 * (K - 1 - p)) c)" if "p < K" for p
  proof (rule bit_word_eqI)
    fix n
    have "n < 2 \<Longrightarrow> 2 * (K - 1 - p) + n < 2 * K"
      using that by linarith
    then show "bit (take_bit 2 (drop_bit (2 * (K - 1 - p)) (take_bit (2 * K) c))) n
        \<longleftrightarrow> bit (take_bit 2 (drop_bit (2 * (K - 1 - p)) c)) n"
      by (auto simp: bit_simps)
  qed
  then show ?thesis
    unfolding symbols_def by (intro map_cong) simp_all
qed

lemma symbols_drop_bit: "symbols (drop_bit (2 * d) c) K = take K (symbols c (K + d))"
proof (rule nth_equalityI)
  show "length (symbols (drop_bit (2 * d) c) K) = length (take K (symbols c (K + d)))"
    by (simp add: length_symbols)
next
  fix p assume "p < length (symbols (drop_bit (2 * d) c) K)"
  then have p: "p < K"
    by (simp add: length_symbols)
  then have "2 * (K - 1 - p) + 2 * d = 2 * (K + d - 1 - p)"
    by linarith
  then have "drop_bit (2 * (K - 1 - p)) (drop_bit (2 * d) c) = drop_bit (2 * (K + d - 1 - p)) c"
    by (simp only: drop_bit_drop_bit)
  with p show "symbols (drop_bit (2 * d) c) K ! p = take K (symbols c (K + d)) ! p"
    by (simp add: symbols_def)
qed

lemma bit2base_inj:
  "bit2base (take_bit 2 x) = bit2base (take_bit 2 y) \<longleftrightarrow> take_bit 2 x = take_bit 2 y"
proof -
  have four: "unat (take_bit 2 z :: uint64) < length bit2base_tab" for z
    using bits_below_imp_less [of "take_bit 2 z" 2] by (simp add: bit_simps bit2base_tab_def)
  have "distinct bit2base_tab"
    by (simp add: bit2base_tab_def)
  then have "bit2base (take_bit 2 x) = bit2base (take_bit 2 y)
      \<longleftrightarrow> unat (take_bit 2 x) = unat (take_bit 2 y)"
    unfolding bit2base_def using four by (simp add: nth_eq_iff_index_eq)
  then show ?thesis
    by (simp add: word_unat_eq_iff)
qed

lemma top_symbol_bit:
  fixes a :: uint64
  shows "bit (take_bit 2 (drop_bit (2 * K) a)) n \<longleftrightarrow> n < 2 \<and> bit a (2 * K + n)"
  by (simp add: bit_simps)

lemma lcp_symbols:
  "K \<le> 32 \<Longrightarrow> unat a < 2 ^ (2 * K) \<Longrightarrow> unat b < 2 ^ (2 * K) \<Longrightarrow>
   int (length (longest_common_prefix (symbols a K) (symbols b K)))
     = int (LeadingZeros64 (a XOR b)) div 2 - (32 - int K)"
proof (induction K arbitrary: a b)
  case 0
  then have "a = 0" "b = 0"
    by (simp_all add: unat_eq_0)
  then show ?case
    by (simp add: symbols_def LeadingZeros64_0)
next
  case (Suc K)
  let ?ta = "take_bit 2 (drop_bit (2 * K) a)" and ?tb = "take_bit 2 (drop_bit (2 * K) b)"
  have below: "n < 2 * K + 2" if "bit a n \<or> bit b n" for n
    using that less_imp_bits_below [OF Suc.prems(2), of n] less_imp_bits_below [OF Suc.prems(3), of n]
    by auto
  show ?case
  proof (cases "?ta = ?tb")
    case True
    let ?a = "take_bit (2 * K) a" and ?b = "take_bit (2 * K) b"
    have x: "a XOR b = ?a XOR ?b"
    proof (rule bit_word_eqI)
      fix n
      show "bit (a XOR b) n \<longleftrightarrow> bit (?a XOR ?b) n"
      proof (cases "n < 2 * K")
        case True
        then show ?thesis by (simp add: bit_simps)
      next
        case False
        have "bit a n \<longleftrightarrow> bit b n"
        proof (cases "n < 2 * K + 2")
          case True
          with False have n: "n = 2 * K + (n - 2 * K)" "n - 2 * K < 2"
            by linarith+
          have "bit ?ta (n - 2 * K) \<longleftrightarrow> bit ?tb (n - 2 * K)"
            by (simp only: \<open>?ta = ?tb\<close>)
          then show ?thesis
            unfolding top_symbol_bit using n by simp
        next
          case False
          with below [of n] show ?thesis by blast
        qed
        with False show ?thesis by (simp add: bit_simps)
      qed
    qed
    have "unat ?a < 2 ^ (2 * K)" "unat ?b < 2 ^ (2 * K)"
      by (rule bits_below_imp_less, simp add: bit_simps)+
    then have ih: "int (length (longest_common_prefix (symbols ?a K) (symbols ?b K)))
        = int (LeadingZeros64 (?a XOR ?b)) div 2 - (32 - int K)"
      using Suc.prems(1) by (intro Suc.IH) simp_all
    have "int (length (longest_common_prefix (symbols a (Suc K)) (symbols b (Suc K))))
        = 1 + int (length (longest_common_prefix (symbols ?a K) (symbols ?b K)))"
      unfolding symbols_Suc symbols_take_bit using True by simp
    then show ?thesis
      unfolding ih x by simp
  next
    case False
    then have ne: "bit2base ?ta \<noteq> bit2base ?tb"
      by (simp add: bit2base_inj)
    from False obtain n where "bit ?ta n \<noteq> bit ?tb n"
      using bit_eq_iff by blast
    then have n: "n < 2" "bit (a XOR b) (2 * K + n)"
      unfolding top_symbol_bit by (auto simp: bit_simps)
    have none: "\<not> bit (a XOR b) j" if "2 * K + 1 < j" for j
      using that below [of j] by (auto simp: bit_simps)
    have lz: "LeadingZeros64 (a XOR b) = 63 - (2 * K + 1) \<or> LeadingZeros64 (a XOR b) = 63 - 2 * K"
    proof (cases "bit (a XOR b) (2 * K + 1)")
      case True
      then have "LeadingZeros64 (a XOR b) = 63 - (2 * K + 1)"
        using none by (rule LeadingZeros64_top)
      then show ?thesis by simp
    next
      case False
      with n have b0: "bit (a XOR b) (2 * K)"
        by (cases "n = 0") (simp_all add: less_2_cases_iff)
      have "\<not> bit (a XOR b) j" if "2 * K < j" for j
        using that none [of j] False by (cases "j = 2 * K + 1") simp_all
      with b0 have "LeadingZeros64 (a XOR b) = 63 - 2 * K"
        by (rule LeadingZeros64_top)
      then show ?thesis by simp
    qed
    have K: "K \<le> 31"
      using Suc.prems(1) by simp
    then have d1: "(63 - (2 * K + 1)) div 2 = 31 - K" and d2: "(63 - 2 * K) div 2 = 31 - K"
      by linarith+
    have "LeadingZeros64 (a XOR b) div 2 = 31 - K"
      using lz d1 d2 by auto
    moreover have "int (LeadingZeros64 (a XOR b)) div 2 = int (LeadingZeros64 (a XOR b) div 2)"
      by (simp add: zdiv_int)
    ultimately have "int (LeadingZeros64 (a XOR b)) div 2 = int (31 - K)"
      by simp
    then have "int (LeadingZeros64 (a XOR b)) div 2 - (32 - int (Suc K)) = 0"
      using K by simp
    moreover have "longest_common_prefix (symbols a (Suc K)) (symbols b (Suc K)) = []"
      unfolding symbols_Suc using ne by simp
    ultimately show ?thesis
      by simp
  qed
qed

lemma lcp_take_left:
  "longest_common_prefix xs ys = longest_common_prefix (take (length ys) xs) ys"
  by (induction xs ys rule: longest_common_prefix.induct) simp_all

lemma lcp_take_right:
  "longest_common_prefix xs ys = longest_common_prefix xs (take (length xs) ys)"
  by (induction xs ys rule: longest_common_prefix.induct) simp_all

lemma lcp_prefix: "prefix xs ys \<Longrightarrow> longest_common_prefix xs ys = xs"
  by (induction xs ys rule: longest_common_prefix.induct) simp_all

lemma lcp_prefix': "prefix ys xs \<Longrightarrow> longest_common_prefix xs ys = ys"
  by (induction xs ys rule: longest_common_prefix.induct) simp_all

lemma lcp_hd: "xs \<noteq> [] \<Longrightarrow> ys \<noteq> [] \<Longrightarrow> hd xs \<noteq> hd ys \<Longrightarrow> longest_common_prefix xs ys = []"
  by (cases xs; cases ys) simp_all

lemma LongestPrefix_symbols:
  assumes k1: "1 \<le> k1" "k1 \<le> 32" and k2: "1 \<le> k2" "k2 \<le> 32"
    and c1: "unat c1 < 2 ^ (2 * nat k1)" and c2: "unat c2 < 2 ^ (2 * nat k2)"
  shows "LongestPrefix c1 c2 k1 k2 =
    Inr (int (length (longest_common_prefix (symbols c1 (nat k1)) (symbols c2 (nat k2)))))"
proof (cases "k1 \<ge> k2")
  case True
  define d where "d = nat k1 - nat k2"
  have K: "nat k1 = nat k2 + d" "nat k2 \<le> nat k1" "nat k2 \<le> 32"
    using True k1 k2 by (simp_all add: d_def)
  define a where "a = drop_bit (2 * d) c1"
  have j: "0 \<le> k1 - k2" "k1 - k2 \<le> 32"
    using True k1 k2 by simp_all
  have "nat (k1 - k2) = d"
    using True k2 by (simp add: d_def nat_diff_distrib)
  then have sh: "shr c1 (word_of_int (push_bit 1 (k1 - k2))) = a"
    unfolding shr_eq unat_shift_count [OF j] a_def by simp
  have a: "unat a < 2 ^ (2 * nat k2)"
    unfolding a_def d_def using K(2) c1 by (rule Prefix_below)
  have "symbols a (nat k2) = take (nat k2) (symbols c1 (nat k1))"
    unfolding a_def K(1) by (rule symbols_drop_bit)
  then have "longest_common_prefix (symbols c1 (nat k1)) (symbols c2 (nat k2))
      = longest_common_prefix (symbols a (nat k2)) (symbols c2 (nat k2))"
    using lcp_take_left [of "symbols c1 (nat k1)" "symbols c2 (nat k2)"]
    by (simp add: length_symbols)
  moreover have "32 - int (nat k2) = 32 - k2"
    using k2 by simp
  ultimately show ?thesis
    unfolding LongestPrefix_def sh using True k1 k2 lcp_symbols [OF K(3) a c2]
    by simp
next
  case False
  define d where "d = nat k2 - nat k1"
  have K: "nat k2 = nat k1 + d" "nat k1 \<le> nat k2" "nat k1 \<le> 32"
    using False k1 k2 by (simp_all add: d_def)
  define b where "b = drop_bit (2 * d) c2"
  have j: "0 \<le> k2 - k1" "k2 - k1 \<le> 32"
    using False k1 k2 by simp_all
  have "nat (k2 - k1) = d"
    using False k1 by (simp add: d_def nat_diff_distrib)
  then have sh: "shr c2 (word_of_int (push_bit 1 (k2 - k1))) = b"
    unfolding shr_eq unat_shift_count [OF j] b_def by simp
  have b: "unat b < 2 ^ (2 * nat k1)"
    unfolding b_def d_def using K(2) c2 by (rule Prefix_below)
  have "symbols b (nat k1) = take (nat k1) (symbols c2 (nat k2))"
    unfolding b_def K(1) by (rule symbols_drop_bit)
  then have "longest_common_prefix (symbols c1 (nat k1)) (symbols c2 (nat k2))
      = longest_common_prefix (symbols c1 (nat k1)) (symbols b (nat k1))"
    using lcp_take_right [of "symbols c1 (nat k1)" "symbols c2 (nat k2)"]
    by (simp add: length_symbols)
  moreover have "32 - int (nat k1) = 32 - k1"
    using k1 by simp
  ultimately show ?thesis
    unfolding LongestPrefix_def sh using False k1 k2 lcp_symbols [OF K(3) c1 b]
    by simp
qed

section \<open>The claims\<close>

text \<open>
  C1 (the code departs from its own comment). \<open>init\<close> computes
  \<open>(1 << uint(1<<i)) - 1\<close>, that is \<open>2^(2^i) - 1\<close>, where its comment and the
  documentation of \<open>ErrCodeOverflow\<close> say \<open>(1<<(i*2)) - 1\<close>. At \<open>k = 3\<close> the entry
  is 255 and not 63, and \<open>Decode 64 3\<close>, whose code exceeds \<open>2^6 - 1\<close>, does not
  panic with \<open>ErrCodeOverflow\<close>: it returns the three bases of the low six bits. The
  entry is \<open>2^(2k) - 1\<close> for \<open>k = 1\<close>, \<open>2\<close> and \<open>32\<close> only.
\<close>

theorem MaxCode_Decode_at_3:
  "MaxCode ! 3 = 255 \<and> (64 :: uint64) > 2 ^ (2 * 3) - 1 \<and> Decode 64 3 = Inr ''AAA''
   \<and> filter (\<lambda>k. MaxCode ! k = 2 ^ (2 * k) - 1) [1..<33] = [1, 2, 32]"
  by code_simp

text \<open>
  C2. For every sequence \<open>s\<close> over \<open>A\<close>, \<open>C\<close>, \<open>G\<close>, \<open>T\<close> of length 1 to 32,
  \<open>Encode s\<close> succeeds and \<open>Decode\<close> of its code at length \<open>len(s)\<close> returns \<open>s\<close>.
\<close>

theorem Encode_Decode_roundtrip:
  assumes acgt: "set s \<subseteq> {CHR ''A'', CHR ''C'', CHR ''G'', CHR ''T''}"
    and len: "1 \<le> length s" "length s \<le> 32"
  shows "\<exists>code. Encode s = (code, None) \<and> Decode code (int (length s)) = Inr s"
proof -
  let ?code = "fst (encode_loop s 0)"
  have valid: "\<forall>b\<in>set s. base2bit b \<noteq> 4"
    using acgt bit2base_base2bit by blast
  have enc: "Encode s = (?code, None)"
    using len encode_loop_ok [OF valid, of 0] by (auto simp: Encode_def prod_eq_iff)
  have guard: "\<not> ?code > MaxCode ! length s"
    using len by (rule below_MaxCode) (rule encode_loop_bits_below [OF valid])
  have "map (\<lambda>p. bit2base (take_bit 2 (drop_bit (2 * (length s - 1 - p)) ?code))) [0..<length s] = s"
  proof (rule nth_equalityI)
    fix p assume "p < length (map (\<lambda>p. bit2base (take_bit 2 (drop_bit (2 * (length s - 1 - p)) ?code))) [0..<length s])"
    then have p: "p < length s" by simp
    then have "s ! p \<in> {CHR ''A'', CHR ''C'', CHR ''G'', CHR ''T''}"
      using acgt nth_mem by blast
    then have "bit2base (base2bit (s ! p)) = s ! p"
      using bit2base_base2bit by blast
    moreover have "take_bit 2 (drop_bit (2 * (length s - Suc p)) ?code) = base2bit (s ! p)"
      using encode_loop_symbol [OF valid len(2) p] by simp
    ultimately show "map (\<lambda>p. bit2base (take_bit 2 (drop_bit (2 * (length s - 1 - p)) ?code))) [0..<length s] ! p = s ! p"
      using p by simp
  qed simp
  then have "Decode ?code (int (length s)) = Inr s"
    using len guard by (auto simp: Decode_def decode_loop_0)
  with enc show ?thesis by blast
qed

theorem Encode_Decode_roundtrip_witness:
  "Encode ''GATTACA'' = (0x23C4, None) \<and> Decode 0x23C4 7 = Inr ''GATTACA''"
proof -
  have "\<exists>code. Encode ''GATTACA'' = (code, None) \<and> Decode code (int (length ''GATTACA'')) = Inr ''GATTACA''"
    by (rule Encode_Decode_roundtrip) simp_all
  moreover have "Encode ''GATTACA'' = (0x23C4, None)"
    by code_simp
  ultimately show ?thesis by simp
qed

text \<open>
  C3. For every \<open>k\<close> from 1 to 32 and every code \<open>c\<close> (in particular every
  \<open>c < 2^(2k)\<close>), the fused \<open>RevComp c k\<close> returns the same code as \<open>Reverse\<close> applied
  to the result of \<open>Complement\<close>, and as \<open>Complement\<close> applied to the result of
  \<open>Reverse\<close>; none of the calls panics.
\<close>

theorem RevComp_fused:
  assumes k: "1 \<le> k" "k \<le> 32"
  shows "\<exists>rc. RevComp c k = Inr rc
     \<and> (\<exists>x. Complement c k = Inr x \<and> Reverse x k = Inr rc)
     \<and> (\<exists>y. Reverse c k = Inr y \<and> Complement y k = Inr rc)"
proof -
  have K: "1 \<le> nat k" "nat k \<le> 32"
    using k by simp_all
  show ?thesis
    using k RevComp_bit_eqs [OF K, of c]
    by (simp add: RevComp_eq Reverse_eq Complement_eq)
qed

theorem RevComp_fused_witness:
  "RevComp 27 4 = Inr 27
   \<and> Complement 27 4 = Inr 228 \<and> Reverse 228 4 = Inr 27
   \<and> Reverse 27 4 = Inr 228 \<and> Complement 228 4 = Inr 27"
proof -
  have e: "Complement 27 4 = Inr 228" "Reverse 27 4 = Inr 228" "RevComp 27 4 = Inr 27"
    by code_simp+
  show ?thesis
    using RevComp_fused [of 4 27] e by simp
qed

text \<open>
  C4. Let \<open>s\<close> be a sequence of valid symbols (no table entry is the sentinel 4) longer
  than \<open>k\<close>, with \<open>k\<close> a k-mer length, 1 to 32. Sliding a \<open>k\<close>-window forward one symbol
  at a time, the code that \<open>MustEncodeFromFormerKmer\<close> (and likewise the checked
  \<open>EncodeFromFormerKmer\<close>) computes from the previous window's code is, at every
  window \<open>i\<close> that lies inside \<open>s\<close>, the code that \<open>Encode\<close> returns for that window,
  and no step reports an error.
\<close>

theorem incremental_equals_direct:
  assumes valid: "\<forall>b\<in>set s. base2bit b \<noteq> 4"
    and k: "1 \<le> k" "k \<le> 32" "k < length s"
    and i: "i + k \<le> length s"
  shows "slide_former MustEncodeFromFormerKmer s k i = Inr (Encode (take k (drop i s)))
         \<and> slide_former EncodeFromFormerKmer s k i = Inr (Encode (take k (drop i s)))
         \<and> snd (Encode (take k (drop i s))) = None"
  using i
proof (induction i)
  case 0
  have "\<forall>b\<in>set (take k s). base2bit b \<noteq> 4"
    using valid by (meson in_set_takeD)
  then have "Encode (take k s) = (fst (encode_loop (take k s) 0), None)"
    using k by (intro Encode_ok) simp_all
  then show ?case by simp
next
  case (Suc i)
  let ?w = "take k (drop (Suc i) s)" and ?l = "take k (drop i s)"
  have vw: "\<forall>b\<in>set ?w. base2bit b \<noteq> 4" and vl: "\<forall>b\<in>set ?l. base2bit b \<noteq> 4"
    using valid by (meson in_set_takeD in_set_dropD)+
  have lw: "length ?w = k" and ll: "length ?l = k"
    using Suc.prems by simp_all
  have ew: "Encode ?w = (fst (encode_loop ?w 0), None)"
    using vw k lw by (intro Encode_ok) simp_all
  have el: "Encode ?l = (fst (encode_loop ?l 0), None)"
    using vl k ll by (intro Encode_ok) simp_all
  have cons: "take (length ?w - 1) ?w = drop 1 ?l"
    unfolding lw using Suc.prems k(1) by (rule window_consecutive)
  have a1: "1 \<le> length ?w" and a2: "length ?w \<le> 32" and a3: "length ?l = length ?w"
    unfolding lw ll using k by simp_all
  have must: "MustEncodeFromFormerKmer ?w ?l (fst (encode_loop ?l 0)) = Inr (Encode ?w)"
    unfolding ew by (rule former_step [OF vw vl a1 a2 a3 cons])
  have checked: "EncodeFromFormerKmer ?w ?l (fst (encode_loop ?l 0)) = Inr (Encode ?w)"
    unfolding EncodeFromFormerKmer_consecutive [OF a1 a3 cons] by (rule must)
  from Suc have ih: "slide_former MustEncodeFromFormerKmer s k i = Inr (Encode ?l)"
    "slide_former EncodeFromFormerKmer s k i = Inr (Encode ?l)"
    by simp_all
  show ?case
    using must checked ew by (simp add: ih el)
qed

theorem incremental_equals_direct_witness:
  "slide_former MustEncodeFromFormerKmer ''ACGTAC'' 3 2 = Inr (Encode ''GTA'')
   \<and> slide_former EncodeFromFormerKmer ''ACGTAC'' 3 2 = Inr (Encode ''GTA'')
   \<and> Encode ''GTA'' = (0x2C, None)"
proof -
  have v: "\<forall>b\<in>set ''ACGTAC''. base2bit b \<noteq> 4"
    by code_simp
  have e: "Encode ''GTA'' = (0x2C, None)"
    by code_simp
  show ?thesis
    using incremental_equals_direct [OF v, of 3 2] e by simp
qed

text \<open>
  C5, as amended. The worked example: \<open>Encode "ACGT"\<close> is 27 with no error,
  \<open>Decode 27 4\<close> is \<open>"ACGT"\<close>, \<open>Complement 27 4\<close> is 228, and \<open>Reverse 27 4\<close> is
  the code of \<open>"TGCA"\<close>, \<open>0b11100100 = 228\<close>.
\<close>

theorem worked_example:
  "Encode ''ACGT'' = (27, None) \<and> (0b00011011 :: uint64) = 27
   \<and> Decode 27 4 = Inr ''ACGT''
   \<and> Complement 27 4 = Inr 228 \<and> (0b11100100 :: uint64) = 228
   \<and> Reverse 27 4 = Inr 0b11100100
   \<and> Encode ''TGCA'' = (0b11100100, None)"
  by code_simp

text \<open>
  C5, as stated, fails in its last part: \<open>Reverse 27 4\<close> is not \<open>0b11011000\<close>
  (which would be the code of \<open>"TCGA"\<close>).
\<close>

theorem worked_example_Reverse_counterexample:
  "Reverse 27 4 \<noteq> Inr 0b11011000"
  by code_simp

text \<open>
  C6. For every \<open>k\<close> from 1 to 32 and every code \<open>c < 2^(2k)\<close>, \<open>Canonical c k\<close>
  returns a code \<open>m\<close> with \<open>Canonical m k = m\<close> and \<open>m \<le> c\<close> as unsigned 64-bit
  integers.
\<close>

theorem Canonical_idempotent:
  assumes k: "1 \<le> k" "k \<le> 32" and c: "unat c < 2 ^ (2 * nat k)"
  shows "\<exists>m. Canonical c k = Inr m \<and> Canonical m k = Inr m \<and> m \<le> c"
proof -
  have K: "1 \<le> nat k" "nat k \<le> 32"
    using k by simp_all
  define rc where "rc = drop_bit (2 * (32 - nat k)) (swap_cascade (NOT c))"
  have sh: "shr (swap_cascade (NOT x)) (word_of_int (push_bit 1 (32 - k)))
      = drop_bit (2 * (32 - nat k)) (swap_cascade (NOT x))" for x
    using RevComp_eq [OF k, of x] k by (simp add: RevComp_def)
  have can: "Canonical x k = Inr (if drop_bit (2 * (32 - nat k)) (swap_cascade (NOT x)) < x
      then drop_bit (2 * (32 - nat k)) (swap_cascade (NOT x)) else x)" for x
    unfolding Canonical_def Let_def sh using k by simp
  have inv: "drop_bit (2 * (32 - nat k)) (swap_cascade (NOT rc)) = c"
    unfolding rc_def using K c by (rule RevComp_involution)
  show ?thesis
  proof (cases "rc < c")
    case True
    then have "Canonical c k = Inr rc"
      by (simp add: can rc_def)
    moreover have "\<not> c < rc"
      using True by simp
    then have "Canonical rc k = Inr rc"
      unfolding can inv by (simp only: if_False)
    ultimately show ?thesis
      using True by simp
  next
    case False
    then have "Canonical c k = Inr c"
      by (simp add: can rc_def)
    then show ?thesis
      by simp
  qed
qed

theorem Canonical_idempotent_witness:
  "Canonical 0xFF 4 = Inr 0 \<and> Canonical 0 4 = Inr 0 \<and> (0 :: uint64) \<le> 0xFF"
proof -
  have e: "Canonical 0xFF 4 = Inr 0"
    by code_simp
  have "unat (0xFF :: uint64) < 2 ^ (2 * nat 4)"
    by simp
  with Canonical_idempotent [of 4 "0xFF"] e show ?thesis
    by simp
qed

text \<open>
  C7. For valid codes \<open>c1 < 2^(2 k1)\<close> and \<open>c2 < 2^(2 k2)\<close>, \<open>k1\<close> and \<open>k2\<close> from 1
  to 32, \<open>LongestPrefix c1 c2 k1 k2\<close> is the length of the longest common prefix of the
  two decoded sequences (\<open>MustDecode c1 k1\<close> and \<open>MustDecode c2 k2\<close>). In particular it
  is \<open>min k1 k2\<close> when one sequence is a prefix of the other, and 0 when the first
  symbols differ.
\<close>

theorem LongestPrefix_correct:
  assumes k1: "1 \<le> k1" "k1 \<le> 32" and k2: "1 \<le> k2" "k2 \<le> 32"
    and c1: "unat c1 < 2 ^ (2 * nat k1)" and c2: "unat c2 < 2 ^ (2 * nat k2)"
  shows "\<exists>s1 s2. MustDecode c1 k1 = Inr s1 \<and> MustDecode c2 k2 = Inr s2
     \<and> LongestPrefix c1 c2 k1 k2 = Inr (int (length (longest_common_prefix s1 s2)))
     \<and> (prefix s1 s2 \<or> prefix s2 s1 \<longrightarrow> LongestPrefix c1 c2 k1 k2 = Inr (min k1 k2))
     \<and> (hd s1 \<noteq> hd s2 \<longrightarrow> LongestPrefix c1 c2 k1 k2 = Inr 0)"
proof -
  let ?s1 = "symbols c1 (nat k1)" and ?s2 = "symbols c2 (nat k2)"
  have d1: "MustDecode c1 k1 = Inr ?s1" and d2: "MustDecode c2 k2 = Inr ?s2"
    using k1 k2 by (simp_all add: MustDecode_eq)
  have l: "length ?s1 = nat k1" "length ?s2 = nat k2"
    by (simp_all add: length_symbols)
  have lp: "LongestPrefix c1 c2 k1 k2 = Inr (int (length (longest_common_prefix ?s1 ?s2)))"
    using assms by (rule LongestPrefix_symbols)
  have p: "LongestPrefix c1 c2 k1 k2 = Inr (min k1 k2)" if "prefix ?s1 ?s2 \<or> prefix ?s2 ?s1"
    using that
  proof
    assume a: "prefix ?s1 ?s2"
    then have "nat k1 \<le> nat k2"
      using prefix_length_le [OF a] l by simp
    then show ?thesis
      unfolding lp lcp_prefix [OF a] l using k1 k2 by simp
  next
    assume a: "prefix ?s2 ?s1"
    then have "nat k2 \<le> nat k1"
      using prefix_length_le [OF a] l by simp
    then show ?thesis
      unfolding lp lcp_prefix' [OF a] l using k1 k2 by simp
  qed
  have ne: "?s1 \<noteq> []" "?s2 \<noteq> []"
    using l k1 k2 by auto
  have h: "LongestPrefix c1 c2 k1 k2 = Inr 0" if "hd ?s1 \<noteq> hd ?s2"
    unfolding lp lcp_hd [OF ne that] by simp
  from d1 d2 lp p h show ?thesis
    by blast
qed

theorem LongestPrefix_correct_witness:
  "MustDecode 0x1E4 6 = Inr ''ACTGCA'' \<and> MustDecode 0x79 5 = Inr ''ACTGC''
   \<and> LongestPrefix 0x1E4 0x79 6 5 = Inr 5"
proof -
  have d: "MustDecode 0x1E4 6 = Inr ''ACTGCA''" "MustDecode 0x79 5 = Inr ''ACTGC''"
    by code_simp+
  have "unat (0x1E4 :: uint64) < 2 ^ (2 * nat 6)" "unat (0x79 :: uint64) < 2 ^ (2 * nat 5)"
    by simp_all
  with LongestPrefix_correct [of 6 5 "0x1E4" "0x79"] d show ?thesis
    by simp
qed

text \<open>
  C8, as amended. \<open>Encode s\<close> returns an error exactly when \<open>s\<close> is empty or longer
  than 32 bytes or holds a byte without a table entry (entry 4). In the first case the
  result is \<open>(0, ErrKOverflow)\<close>, the package's error value for a length outside 1 to
  32; otherwise, with a byte without entry, the error is \<open>ErrIllegalBase\<close>. In every
  other case there is no error and the 2-bit value at each position \<open>p\<close> of the code,
  \<open>(code >> 2(k-1-p)) & 3\<close>, is the table entry of \<open>s[p]\<close>. The bytes with an entry are
  \<open>A C G T\<close>, \<open>U\<close> and the eleven degenerate bases, in either case; each degenerate
  base, upper or lower case, has the entry of the first base listed for it, and \<open>U\<close> and
  \<open>u\<close> have the entry of \<open>T\<close>.
\<close>

theorem Encode_errors:
  "(snd (Encode s) \<noteq> None \<longleftrightarrow>
      length s = 0 \<or> 32 < length s \<or> (\<exists>b\<in>set s. base2bit b = 4))
   \<and> (length s = 0 \<or> 32 < length s \<longrightarrow> Encode s = (0, Some ErrKOverflow))
   \<and> (1 \<le> length s \<and> length s \<le> 32 \<and> (\<exists>b\<in>set s. base2bit b = 4) \<longrightarrow>
        snd (Encode s) = Some ErrIllegalBase)
   \<and> (1 \<le> length s \<and> length s \<le> 32 \<and> (\<forall>b\<in>set s. base2bit b \<noteq> 4) \<longrightarrow>
        snd (Encode s) = None
        \<and> (\<forall>p<length s. drop_bit (2 * (length s - 1 - p)) (fst (Encode s)) AND 3 = base2bit (s ! p)))
   \<and> (\<forall>b. base2bit b = 4 \<longleftrightarrow> b \<notin> set ''ABCDGHKMNRSTUVWYabcdghkmnrstuvwy'')
   \<and> (\<forall>(d, bases)\<in>set degenerate_bases.
        base2bit d = base2bit (hd bases)
        \<and> base2bit (char_of (of_char d + (32 :: nat))) = base2bit (hd bases))
   \<and> base2bit CHR ''U'' = base2bit CHR ''T'' \<and> base2bit CHR ''u'' = base2bit CHR ''T''"
proof -
  have over: "length s = 0 \<or> 32 < length s \<Longrightarrow> Encode s = (0, Some ErrKOverflow)"
    by (auto simp: Encode_def)
  have bad: "snd (Encode s) = Some ErrIllegalBase"
    if "1 \<le> length s" "length s \<le> 32" "\<exists>b\<in>set s. base2bit b = 4"
    using that encode_loop_bad [of s 0] by (auto simp: Encode_def)
  have good: "snd (Encode s) = None
      \<and> (\<forall>p<length s. drop_bit (2 * (length s - 1 - p)) (fst (Encode s)) AND 3 = base2bit (s ! p))"
    if l: "1 \<le> length s" "length s \<le> 32" and v: "\<forall>b\<in>set s. base2bit b \<noteq> 4"
  proof -
    have e: "Encode s = (fst (encode_loop s 0), None)"
      using v l by (rule Encode_ok)
    show ?thesis
      unfolding e and_3 using encode_loop_symbol [OF v l(2)] by simp
  qed
  have iff: "snd (Encode s) \<noteq> None \<longleftrightarrow>
      length s = 0 \<or> 32 < length s \<or> (\<exists>b\<in>set s. base2bit b = 4)"
  proof (cases "length s = 0 \<or> 32 < length s")
    case True
    with over show ?thesis by auto
  next
    case False
    then have l: "1 \<le> length s" "length s \<le> 32" by linarith+
    show ?thesis
    proof (cases "\<exists>b\<in>set s. base2bit b = 4")
      case True
      with bad [OF l] show ?thesis by simp
    next
      case False
      with good [OF l] l show ?thesis by auto
    qed
  qed
  have c2: "length s = 0 \<or> 32 < length s \<longrightarrow> Encode s = (0, Some ErrKOverflow)"
    using over by blast
  have c3: "1 \<le> length s \<and> length s \<le> 32 \<and> (\<exists>b\<in>set s. base2bit b = 4) \<longrightarrow>
        snd (Encode s) = Some ErrIllegalBase"
    using bad by blast
  have c4: "1 \<le> length s \<and> length s \<le> 32 \<and> (\<forall>b\<in>set s. base2bit b \<noteq> 4) \<longrightarrow>
        snd (Encode s) = None
        \<and> (\<forall>p<length s. drop_bit (2 * (length s - 1 - p)) (fst (Encode s)) AND 3 = base2bit (s ! p))"
    using good by blast
  have c5: "\<forall>b. base2bit b = 4 \<longleftrightarrow> b \<notin> set ''ABCDGHKMNRSTUVWYabcdghkmnrstuvwy''"
    using has_entry_iff by blast
  have c7: "base2bit CHR ''U'' = base2bit CHR ''T''" "base2bit CHR ''u'' = base2bit CHR ''T''"
    by code_simp+
  show ?thesis
    by (intro conjI) (rule iff c2 c3 c4 c5 degenerate_first c7)+
qed

theorem Encode_errors_witness:
  "Encode [] = (0, Some ErrKOverflow)
   \<and> Encode (replicate 33 CHR ''A'') = (0, Some ErrKOverflow)
   \<and> snd (Encode ''ACXT'') = Some ErrIllegalBase
   \<and> snd (Encode ''NCGT'') = None
   \<and> drop_bit 6 (fst (Encode ''NCGT'')) AND 3 = base2bit CHR ''A''
   \<and> base2bit CHR ''N'' = base2bit CHR ''A'' \<and> base2bit CHR ''n'' = base2bit CHR ''A''"
proof -
  have x: "\<exists>b\<in>set ''ACXT''. base2bit b = 4"
    by code_simp
  have n: "\<forall>b\<in>set ''NCGT''. base2bit b \<noteq> 4"
    by code_simp
  have m: "(CHR ''N'', ''ACGT'') \<in> set degenerate_bases"
    by (simp add: degenerate_bases_def)
  have lower: "char_of (110 :: nat) = CHR ''n''"
    by code_simp
  have e1: "Encode [] = (0, Some ErrKOverflow)"
    using Encode_errors [of "[]", THEN conjunct2, THEN conjunct1] by simp
  have e2: "Encode (replicate 33 CHR ''A'') = (0, Some ErrKOverflow)"
    using Encode_errors [of "replicate 33 CHR ''A''", THEN conjunct2, THEN conjunct1] by simp
  have e3: "snd (Encode ''ACXT'') = Some ErrIllegalBase"
    by (rule Encode_errors [of "''ACXT''", THEN conjunct2, THEN conjunct2, THEN conjunct1,
          THEN mp]) (use x in auto)
  have e4: "snd (Encode ''NCGT'') = None
      \<and> (\<forall>p<length ''NCGT''. drop_bit (2 * (length ''NCGT'' - 1 - p)) (fst (Encode ''NCGT'')) AND 3
            = base2bit (''NCGT'' ! p))"
    by (rule Encode_errors [of "''NCGT''", THEN conjunct2, THEN conjunct2, THEN conjunct2,
          THEN conjunct1, THEN mp]) (use n in auto)
  then have e5: "drop_bit (2 * (length ''NCGT'' - 1 - 0)) (fst (Encode ''NCGT'')) AND 3
      = base2bit (''NCGT'' ! 0)"
    by (intro e4 [THEN conjunct2, rule_format]) simp
  have e6: "base2bit CHR ''N'' = base2bit CHR ''A'' \<and> base2bit CHR ''n'' = base2bit CHR ''A''"
    using bspec [OF Encode_errors [of "[]", THEN conjunct2, THEN conjunct2, THEN conjunct2,
        THEN conjunct2, THEN conjunct2, THEN conjunct1] m]
    by (simp add: lower)
  from e5 e6 have "drop_bit 6 (fst (Encode ''NCGT'')) AND 3 = base2bit CHR ''A''"
    by simp
  with e1 e2 e3 e4 e6 show ?thesis
    by (intro conjI) simp_all
qed

text \<open>
  C8, as stated, fails: the byte \<open>U\<close> is none of the canonical bases \<open>A C G T\<close> (in
  either case) and none of the degenerate bases of \<open>Encode\<close>'s documentation (in
  either case), and \<open>"U"\<close> has a length in range, yet \<open>Encode "U"\<close> returns the code 3
  with no error.
\<close>

theorem Encode_U_counterexample:
  "length ''U'' = 1
   \<and> CHR ''U'' \<notin> set ''ACGTacgt''
   \<and> CHR ''U'' \<notin> set (map fst degenerate_bases)
   \<and> CHR ''U'' \<notin> set (map (\<lambda>(d, bases). char_of (of_char d + (32 :: nat))) degenerate_bases)
   \<and> Encode ''U'' = (3, None)"
  by code_simp

text \<open>
  C9. Given a valid \<open>k\<close> (1 to 32) and a code \<open>c < 2^(2k)\<close>, the results of \<open>Reverse\<close>,
  \<open>Complement\<close> (and \<open>MustComplement\<close>), \<open>RevComp\<close> and \<open>Canonical\<close> are again below
  \<open>2^(2k)\<close>; so is the code that each incremental encoder, trusting or checked,
  forward or backward, returns for a \<open>k\<close>-mer and the previous code \<open>c\<close>, with or without
  an error. \<open>Prefix c k n\<close> is below \<open>2^(2n)\<close> for \<open>1 \<le> n \<le> k\<close> and \<open>Suffix c k i\<close> is
  below \<open>2^(2(k-i))\<close> for \<open>0 \<le> i < k\<close>. None of these calls panics.
\<close>

theorem codes_stay_in_range:
  assumes k: "1 \<le> k" "k \<le> 32" and c: "unat c < 2 ^ (2 * nat k)"
  shows "(\<exists>r. Reverse c k = Inr r \<and> unat r < 2 ^ (2 * nat k))
    \<and> (\<exists>r. Complement c k = Inr r \<and> unat r < 2 ^ (2 * nat k))
    \<and> unat (MustComplement c k) < 2 ^ (2 * nat k)
    \<and> (\<exists>r. RevComp c k = Inr r \<and> unat r < 2 ^ (2 * nat k))
    \<and> (\<exists>r. Canonical c k = Inr r \<and> unat r < 2 ^ (2 * nat k))
    \<and> (\<forall>kmer other. length kmer = nat k \<longrightarrow>
          (\<exists>r e. MustEncodeFromFormerKmer kmer other c = Inr (r, e) \<and> unat r < 2 ^ (2 * nat k))
        \<and> (\<exists>r e. EncodeFromFormerKmer kmer other c = Inr (r, e) \<and> unat r < 2 ^ (2 * nat k))
        \<and> (\<exists>r e. MustEncodeFromLatterKmer kmer other c = Inr (r, e) \<and> unat r < 2 ^ (2 * nat k))
        \<and> (\<exists>r e. EncodeFromLatterKmer kmer other c = Inr (r, e) \<and> unat r < 2 ^ (2 * nat k)))
    \<and> (\<forall>n. 1 \<le> n \<and> n \<le> k \<longrightarrow> (\<exists>r. Prefix c k n = Inr r \<and> unat r < 2 ^ (2 * nat n)))
    \<and> (\<forall>i. 0 \<le> i \<and> i < k \<longrightarrow>
          (\<exists>r. Suffix c k i = Inr r \<and> unat r < 2 ^ (2 * nat (k - i))))"
proof -
  have K: "1 \<le> nat k" "nat k \<le> 32"
    using k by simp_all
  have rev: "\<exists>r. Reverse c k = Inr r \<and> unat r < 2 ^ (2 * nat k)"
    unfolding Reverse_eq [OF k] using Reverse_below [OF K] by simp
  have comp: "\<exists>r. Complement c k = Inr r \<and> unat r < 2 ^ (2 * nat k)"
    unfolding Complement_eq [OF k] using Complement_below [OF K(2) c] by simp
  have mcomp: "unat (MustComplement c k) < 2 ^ (2 * nat k)"
    using comp unfolding Must_variants(4) [OF k, symmetric] by simp
  have rc: "\<exists>r. RevComp c k = Inr r \<and> unat r < 2 ^ (2 * nat k)"
    unfolding RevComp_eq [OF k] using Reverse_below [OF K] by simp
  have can: "\<exists>r. Canonical c k = Inr r \<and> unat r < 2 ^ (2 * nat k)"
  proof -
    have sh: "shr (swap_cascade (NOT c)) (word_of_int (push_bit 1 (32 - k)))
        = drop_bit (2 * (32 - nat k)) (swap_cascade (NOT c))"
      using RevComp_eq [OF k, of c] k by (simp add: RevComp_def)
    show ?thesis
      unfolding Canonical_def Let_def sh using k c Reverse_below [OF K, of "NOT c"] by simp
  qed
  have enc: "(\<exists>r e. MustEncodeFromFormerKmer kmer other c = Inr (r, e) \<and> unat r < 2 ^ (2 * nat k))
        \<and> (\<exists>r e. EncodeFromFormerKmer kmer other c = Inr (r, e) \<and> unat r < 2 ^ (2 * nat k))
        \<and> (\<exists>r e. MustEncodeFromLatterKmer kmer other c = Inr (r, e) \<and> unat r < 2 ^ (2 * nat k))
        \<and> (\<exists>r e. EncodeFromLatterKmer kmer other c = Inr (r, e) \<and> unat r < 2 ^ (2 * nat k))"
    if len: "length kmer = nat k" for kmer other
  proof -
    have l: "1 \<le> length kmer" "length kmer \<le> 32" and cl: "unat c < 2 ^ (2 * length kmer)"
      using K c unfolding len by simp_all
    have f: "\<exists>r e. MustEncodeFromFormerKmer kmer other c = Inr (r, e) \<and> unat r < 2 ^ (2 * nat k)"
      using former_below [OF l, of other c] cl unfolding len by auto
    have g: "\<exists>r e. MustEncodeFromLatterKmer kmer other c = Inr (r, e) \<and> unat r < 2 ^ (2 * nat k)"
      using latter_below [OF l cl, of other] cl unfolding len by auto
    have z: "unat (0 :: uint64) < 2 ^ (2 * nat k)"
      by simp
    have f': "\<exists>r e. EncodeFromFormerKmer kmer other c = Inr (r, e) \<and> unat r < 2 ^ (2 * nat k)"
      using checked_former_cases [of kmer other c] f z by metis
    have g': "\<exists>r e. EncodeFromLatterKmer kmer other c = Inr (r, e) \<and> unat r < 2 ^ (2 * nat k)"
      using checked_latter_cases [of kmer other c] g z by metis
    from f f' g g' show ?thesis
      by (intro conjI)
  qed
  have pre: "\<exists>r. Prefix c k n = Inr r \<and> unat r < 2 ^ (2 * nat n)" if "1 \<le> n \<and> n \<le> k" for n
  proof -
    have "nat n \<le> nat k" "nat (k - n) = nat k - nat n"
      using that by (auto simp: nat_diff_distrib)
    then show ?thesis
      using that k Prefix_below [of "nat n" "nat k" c, OF _ c] by (simp add: Prefix_eq)
  qed
  have suf: "\<exists>r. Suffix c k i = Inr r \<and> unat r < 2 ^ (2 * nat (k - i))" if "0 \<le> i \<and> i < k" for i
    using that k by (simp add: Suffix_eq Suffix_below)
  from rev comp mcomp rc can enc pre suf show ?thesis
    by (intro conjI allI impI) blast+
qed

theorem codes_stay_in_range_witness:
  "(\<exists>r. Reverse 27 4 = Inr r \<and> unat r < 256)
   \<and> (\<exists>r. Complement 27 4 = Inr r \<and> unat r < 256)
   \<and> (\<exists>r e. MustEncodeFromFormerKmer ''CGTA'' ''ACGT'' 27 = Inr (r, e) \<and> unat r < 256)
   \<and> (\<exists>r e. EncodeFromLatterKmer ''TACG'' ''ACGT'' 27 = Inr (r, e) \<and> unat r < 256)
   \<and> (\<exists>r. Prefix 27 4 2 = Inr r \<and> unat r < 16)
   \<and> (\<exists>r. Suffix 27 4 1 = Inr r \<and> unat r < 64)"
proof -
  have k: "(1 :: int) \<le> 4" "(4 :: int) \<le> 32" and c: "unat (27 :: uint64) < 2 ^ (2 * nat 4)"
    by simp_all
  note t = codes_stay_in_range [OF k c]
  have rev: "\<exists>r. Reverse 27 4 = Inr r \<and> unat r < 2 ^ (2 * nat 4)"
    by (rule t [THEN conjunct1])
  have comp: "\<exists>r. Complement 27 4 = Inr r \<and> unat r < 2 ^ (2 * nat 4)"
    by (rule t [THEN conjunct2, THEN conjunct1])
  note enc = t [THEN conjunct2, THEN conjunct2, THEN conjunct2, THEN conjunct2, THEN conjunct2,
      THEN conjunct1, rule_format]
  have former: "\<exists>r e. MustEncodeFromFormerKmer ''CGTA'' ''ACGT'' 27 = Inr (r, e)
      \<and> unat r < 2 ^ (2 * nat 4)"
    by (rule enc [of "''CGTA''" "''ACGT''", THEN conjunct1]) simp
  have latter: "\<exists>r e. EncodeFromLatterKmer ''TACG'' ''ACGT'' 27 = Inr (r, e)
      \<and> unat r < 2 ^ (2 * nat 4)"
    by (rule enc [of "''TACG''" "''ACGT''", THEN conjunct2, THEN conjunct2, THEN conjunct2]) simp
  have pre: "\<exists>r. Prefix 27 4 2 = Inr r \<and> unat r < 2 ^ (2 * nat 2)"
    by (rule t [THEN conjunct2, THEN conjunct2, THEN conjunct2, THEN conjunct2, THEN conjunct2,
          THEN conjunct2, THEN conjunct1, rule_format]) simp
  have suf: "\<exists>r. Suffix 27 4 1 = Inr r \<and> unat r < 2 ^ (2 * nat (4 - 1))"
    by (rule t [THEN conjunct2, THEN conjunct2, THEN conjunct2, THEN conjunct2, THEN conjunct2,
          THEN conjunct2, THEN conjunct2, rule_format]) simp
  from rev comp former latter pre suf show ?thesis
    by simp
qed

text \<open>
  C10. When the new edge symbol has no 2-bit value (its table entry is the sentinel 4),
  \<open>MustEncodeFromFormerKmer\<close> returns \<open>leftCode\<close> and \<open>MustEncodeFromLatterKmer\<close>
  returns \<open>rightCode\<close>, unchanged, together with \<open>ErrIllegalBase\<close>.
\<close>

theorem MustEncodeFrom_illegal_base:
  "(kmer \<noteq> [] \<and> base2bit (last kmer) = 4 \<longrightarrow>
      MustEncodeFromFormerKmer kmer leftKmer leftCode = Inr (leftCode, Some ErrIllegalBase))
   \<and> (kmer \<noteq> [] \<and> base2bit (hd kmer) = 4 \<longrightarrow>
      MustEncodeFromLatterKmer kmer rightKmer rightCode = Inr (rightCode, Some ErrIllegalBase))"
  by (auto simp: MustEncodeFromFormerKmer_def MustEncodeFromLatterKmer_def
      Let_def last_conv_nth hd_conv_nth)

theorem MustEncodeFrom_illegal_base_witness:
  "MustEncodeFromFormerKmer ''ACX'' ''AAC'' 1 = Inr (1, Some ErrIllegalBase)
   \<and> MustEncodeFromLatterKmer ''XAC'' ''ACG'' 6 = Inr (6, Some ErrIllegalBase)"
proof -
  have x: "base2bit CHR ''X'' = 4"
    by code_simp
  show ?thesis
    using MustEncodeFrom_illegal_base [where kmer = "''ACX''" and leftKmer = "''AAC''" and leftCode = 1]
      MustEncodeFrom_illegal_base [where kmer = "''XAC''" and rightKmer = "''ACG''" and rightCode = 6] x
    by simp
qed

end
